theory Spec2Isabelle
  imports Main "HOL-Library.Word"
begin

unbundle bit_operations_syntax

section \<open>Byte-addressed memory\<close>

text \<open>
  The library works on raw storage through pointer arithmetic, so the model keeps one flat,
  byte-addressed memory for an LP64 little-endian target (x86-64 Linux, the platform of the
  compile line in the source). Addresses and \<open>size_t\<close> are 64-bit words whose arithmetic
  wraps; \<open>unsigned long long\<close> and pointers are stored as eight bytes, least significant
  byte first. The null pointer is address 0.
\<close>

type_synonym addr = "64 word"
type_synonym memory = "addr \<Rightarrow> 8 word"

definition load64 :: "memory \<Rightarrow> addr \<Rightarrow> 64 word" where
  "load64 m a =
     ucast (m a) OR push_bit 8 (ucast (m (a + 1))) OR push_bit 16 (ucast (m (a + 2)))
     OR push_bit 24 (ucast (m (a + 3))) OR push_bit 32 (ucast (m (a + 4)))
     OR push_bit 40 (ucast (m (a + 5))) OR push_bit 48 (ucast (m (a + 6)))
     OR push_bit 56 (ucast (m (a + 7)))"

definition byte_of :: "64 word \<Rightarrow> 64 word \<Rightarrow> 8 word" where
  "byte_of v i = ucast (drop_bit (8 * unat i) v)"

definition store64 :: "memory \<Rightarrow> addr \<Rightarrow> 64 word \<Rightarrow> memory" where
  "store64 m a v = (\<lambda>x. if x - a < 8 then byte_of v (x - a) else m x)"


section \<open>Constants and record layout\<close>

definition GUARD_BAND_TOP :: "64 word" where
  "GUARD_BAND_TOP = 0xDEADBEEFCAFEF00D"

definition GUARD_BAND_BOTTOM :: "64 word" where
  "GUARD_BAND_BOTTOM = 0x0CACAFECEBADC0DE"

text \<open>
  \<open>struct memoryHeader\<close> on LP64 with pthread support: \<open>szAllocator\<close> at offset 0,
  \<open>size\<close> at 8, \<open>threadId\<close> at 16, \<open>doubleLL.le_next\<close> at 24, \<open>doubleLL.le_prev\<close>
  at 32, \<open>ullFixedValues[0..1]\<close> at 40 and 48; \<open>sizeof\<close> is 56. \<open>struct memoryCap\<close> is
  two guard words, 16 bytes.
\<close>

definition sizeof_memoryHeader :: "64 word" where
  "sizeof_memoryHeader = 56"

definition sizeof_memoryCap :: "64 word" where
  "sizeof_memoryCap = 16"

definition szAllocator_of :: "memory \<Rightarrow> addr \<Rightarrow> addr" where
  "szAllocator_of m h = load64 m h"

definition size_of :: "memory \<Rightarrow> addr \<Rightarrow> 64 word" where
  "size_of m h = load64 m (h + 8)"

definition le_next_of :: "memory \<Rightarrow> addr \<Rightarrow> addr" where
  "le_next_of m h = load64 m (h + 24)"

definition le_prev_of :: "memory \<Rightarrow> addr \<Rightarrow> addr" where
  "le_prev_of m h = load64 m (h + 32)"

text \<open>
  Addresses fixed at link time: the global list head \<open>gp_listHead\<close> (its only field
  \<open>lh_first\<close>), the static string \<open>szEmpty\<close> returned by \<open>trace\<close> when tracing is
  compiled out, and the bootstrap buffer \<open>ullStatic\<close>. The values are those of one
  possible link; the theorems below use them only through the stated separation
  hypotheses.
\<close>

definition gp_listHead :: addr where
  "gp_listHead = 0x4040C0"

definition szEmpty :: addr where
  "szEmpty = 0x404060"

definition ullStatic :: addr where
  "ullStatic = 0x7F0000000000"

section \<open>Process state\<close>

text \<open>
  One thread is modelled, so the mutex operations are no-ops and the thread-local
  re-entrancy flag is one boolean. \<open>heap_blocks\<close> is the bookkeeping of the underlying
  allocator (base address to granted length); the library never reads it.
\<close>

record state =
  mem :: memory
  gi_allocCount :: "32 word"
  gi_hookDisabled :: bool
  gp_orgMalloc :: bool
  gp_orgRealloc :: bool
  gp_orgFree :: bool
  sIndex :: "64 word"
  thread_self :: "64 word"
  heap_blocks :: "addr \<rightharpoonup> 64 word"

datatype abort =
    TopGuardCorrupt nat
  | PaddingOverwritten "64 word"
  | BottomGuardCorrupt nat
  | ReallocBeforeInit
  | BootstrapExhausted
  | NullFunctionCall

datatype alloc_type = REALLOC | MALLOC | CALLOC

definition mem_get_alloc_count :: "state \<Rightarrow> int" where
  "mem_get_alloc_count st = sint (gi_allocCount st)"

section \<open>The intrusive list macros of sys/queue.h\<close>

definition LIST_INIT :: "memory \<Rightarrow> addr \<Rightarrow> memory" where
  "LIST_INIT m head = store64 m head 0"

definition LIST_INSERT_HEAD :: "memory \<Rightarrow> addr \<Rightarrow> addr \<Rightarrow> memory" where
  "LIST_INSERT_HEAD m head elm =
     (let first = load64 m head;
          m1 = store64 m (elm + 24) first;
          m2 = (if first \<noteq> 0 then store64 m1 (load64 m1 head + 32) (elm + 24) else m1);
          m3 = store64 m2 head elm
      in store64 m3 (elm + 32) head)"

definition LIST_REMOVE :: "memory \<Rightarrow> addr \<Rightarrow> memory" where
  "LIST_REMOVE m elm =
     (let m1 = (if load64 m (elm + 24) \<noteq> 0
                then store64 m (load64 m (elm + 24) + 32) (load64 m (elm + 32))
                else m)
      in store64 m1 (load64 m1 (elm + 32)) (load64 m1 (elm + 24)))"

text \<open>The block \<open>if (mHead->doubleLL.le_prev != NULL) { LIST_REMOVE; le_prev = NULL; }\<close>.\<close>

definition detach :: "memory \<Rightarrow> addr \<Rightarrow> memory" where
  "detach m mHead =
     (if load64 m (mHead + 32) \<noteq> 0
      then store64 (LIST_REMOVE m mHead) (mHead + 32) 0
      else m)"

section \<open>verifyIntegrity\<close>

lemma pad_measure:
  "(x::64 word) mod 8 \<noteq> 0 \<Longrightarrow> unat (- (x + 1)) < unat (- x)"
proof -
  assume "x mod 8 \<noteq> 0"
  then have "x \<noteq> 0" by auto
  then have nz: "- x \<noteq> 0" by simp
  then have "unat (- x - 1) = unat (- x) - 1" by (rule unat_minus_one)
  moreover have "unat (- x) \<noteq> 0" using nz by (simp add: unat_eq_zero)
  moreover have "- (x + 1) = - x - 1" by simp
  ultimately show ?thesis by simp
qed

lemma pad_measure':
  "((u::64 word) + s) mod 8 \<noteq> 0 \<Longrightarrow> unat (- u - (s + 1)) < unat (- u - s)"
proof -
  assume a: "(u + s) mod 8 \<noteq> 0"
  have e1: "- u - (s + 1) = - ((u + s) + 1)" by simp
  have e2: "- u - s = - (u + s)" by simp
  show ?thesis unfolding e1 e2 using a by (rule pad_measure)
qed

function check_padding :: "memory \<Rightarrow> addr \<Rightarrow> 64 word \<Rightarrow> 64 word \<Rightarrow> abort + 64 word" where
  "check_padding m ucPtr sz s =
     (if (ucPtr + s) mod 8 \<noteq> 0
      then (if m (ucPtr + s) = ucast (ucPtr + s)
            then check_padding m ucPtr sz (s + 1)
            else Inl (PaddingOverwritten (1 + s - sz)))
      else Inr s)"
  by pat_completeness auto

termination
  by (relation "measure (\<lambda>(m, ucPtr, sz, s). unat (- (ucPtr + s)))")
     (simp_all add: pad_measure')

declare check_padding.simps [simp del]

definition verifyIntegrity :: "memory \<Rightarrow> addr \<Rightarrow> abort + addr" where
  "verifyIntegrity m vPtr =
     (let mHead = vPtr - sizeof_memoryHeader;
          sz = load64 m (mHead + 8)
      in if load64 m (mHead + 40) \<noteq> GUARD_BAND_TOP then Inl (TopGuardCorrupt 0)
         else if load64 m (mHead + 48) \<noteq> GUARD_BAND_TOP then Inl (TopGuardCorrupt 1)
         else (case check_padding m vPtr sz sz of
                 Inl e \<Rightarrow> Inl e
               | Inr s \<Rightarrow>
                   let mCap = vPtr + s
                   in if load64 m mCap \<noteq> GUARD_BAND_BOTTOM then Inl (BottomGuardCorrupt 0)
                      else if load64 m (mCap + 8) \<noteq> GUARD_BAND_BOTTOM
                           then Inl (BottomGuardCorrupt 1)
                           else Inr mHead))"

section \<open>The underlying allocator\<close>

text \<open>
  \<open>gp_orgRealloc\<close> and \<open>gp_orgFree\<close> are the C library's own functions, found with
  \<open>dlsym\<close>. Which address the C library hands out is its choice, so each call takes the
  answer \<open>r\<close> as an argument (0 for a failed request). A successful call that moves a block
  copies the old contents, up to the smaller of the two lengths; a failed call leaves the
  old block as it was.
\<close>

definition copy_bytes :: "memory \<Rightarrow> addr \<Rightarrow> addr \<Rightarrow> 64 word \<Rightarrow> memory" where
  "copy_bytes m src dst n = (\<lambda>x. if x - dst < n then m (src + (x - dst)) else m x)"

definition org_realloc :: "state \<Rightarrow> addr \<Rightarrow> 64 word \<Rightarrow> addr \<Rightarrow> state" where
  "org_realloc st p n r =
     (if r = 0 then st
      else let old = (if p = 0 then 0 else case heap_blocks st p of None \<Rightarrow> 0 | Some k \<Rightarrow> k);
               m' = (if p \<noteq> 0 \<and> r \<noteq> p then copy_bytes (mem st) p r (min old n) else mem st)
           in st\<lparr>mem := m', heap_blocks := ((heap_blocks st)(p := None))(r \<mapsto> n)\<rparr>)"

definition org_free :: "state \<Rightarrow> addr \<Rightarrow> state" where
  "org_free st p = st\<lparr>heap_blocks := (heap_blocks st)(p := None)\<rparr>"

section \<open>internalRealloc and internalFree\<close>

text \<open>The default build (\<open>TRACE\<close> undefined): \<open>trace\<close> returns the static placeholder.\<close>

definition trace :: "int \<Rightarrow> nat \<Rightarrow> addr" where
  "trace iLen ucGetPtr = szEmpty"

definition adjust_size :: "64 word \<Rightarrow> 64 word \<Rightarrow> 64 word" where
  "adjust_size sz nmemb =
     (let adjSize = sz * nmemb + (sizeof_memoryHeader + sizeof_memoryCap)
      in if adjSize mod 8 \<noteq> 0 then adjSize + (8 - adjSize mod 8) else adjSize)"

function fill_padding :: "memory \<Rightarrow> addr \<Rightarrow> 64 word \<Rightarrow> memory \<times> 64 word" where
  "fill_padding m ucPtr s =
     (if (ucPtr + s) mod 8 \<noteq> 0
      then fill_padding (m(ucPtr + s := ucast (ucPtr + s))) ucPtr (s + 1)
      else (m, s))"
  by pat_completeness auto

termination
  by (relation "measure (\<lambda>(m, ucPtr, s). unat (- (ucPtr + s)))")
     (simp_all add: pad_measure')

declare fill_padding.simps [simp del]

text \<open>The \<open>switch (type)\<close> inside the re-entrancy guard: who increments the live count.\<close>

definition count_allocation :: "state \<Rightarrow> addr \<Rightarrow> alloc_type \<Rightarrow> state" where
  "count_allocation st vPtr type =
     (case type of
        REALLOC \<Rightarrow> (if vPtr = 0 then st\<lparr>gi_allocCount := gi_allocCount st + 1\<rparr> else st)
      | MALLOC \<Rightarrow> st\<lparr>gi_allocCount := gi_allocCount st + 1\<rparr>
      | CALLOC \<Rightarrow> st\<lparr>gi_allocCount := gi_allocCount st + 1\<rparr>)"

text \<open>Everything \<open>internalRealloc\<close> writes into the block it obtained.\<close>

definition build_record :: "memory \<Rightarrow> addr \<Rightarrow> addr \<Rightarrow> 64 word \<Rightarrow> 64 word \<Rightarrow> memory" where
  "build_record m mHead szCaller payload tid =
     (let m1 = store64 m mHead szCaller;
          m2 = store64 m1 (mHead + 8) payload;
          m3 = store64 m2 (mHead + 16) tid;
          m4 = store64 m3 (mHead + 24) 0;
          m5 = store64 m4 (mHead + 32) 0;
          m6 = LIST_INSERT_HEAD m5 gp_listHead mHead;
          m7 = store64 m6 (mHead + 40) GUARD_BAND_TOP;
          m8 = store64 m7 (mHead + 48) GUARD_BAND_TOP;
          ucPtr = mHead + sizeof_memoryHeader;
          (m9, s) = fill_padding m8 ucPtr (load64 m8 (mHead + 8));
          mCap = ucPtr + s;
          m10 = store64 m9 mCap GUARD_BAND_BOTTOM
      in store64 m10 (mCap + 8) GUARD_BAND_BOTTOM)"

definition internalRealloc ::
  "state \<Rightarrow> addr \<Rightarrow> 64 word \<Rightarrow> 64 word \<Rightarrow> alloc_type \<Rightarrow> addr \<Rightarrow> abort + addr \<times> state" where
  "internalRealloc st vPtr sz nmemb type r =
     (let adjSize = adjust_size sz nmemb
      in case (if vPtr \<noteq> 0
               then (case verifyIntegrity (mem st) vPtr of
                       Inl e \<Rightarrow> Inl e
                     | Inr mHead \<Rightarrow> Inr (mHead, st\<lparr>mem := detach (mem st) mHead\<rparr>))
               else Inr (0, st)) of
           Inl e \<Rightarrow> Inl e
         | Inr (mHead, st1) \<Rightarrow>
             if \<not> gp_orgRealloc st1 then Inl NullFunctionCall
             else if r = 0 then Inr (0, org_realloc st1 mHead adjSize r)
             else
               let st2 = org_realloc st1 mHead adjSize r;
                   (szCaller, st3) =
                     (if \<not> gi_hookDisabled st2
                      then (trace 4 1, count_allocation st2 vPtr type)
                      else (0, st2))
               in Inr (r + sizeof_memoryHeader,
                       st3\<lparr>mem := build_record (mem st3) r szCaller (sz * nmemb)
                                     (thread_self st3)\<rparr>))"

definition internalStaticAlloc :: "state \<Rightarrow> 64 word \<Rightarrow> abort + addr \<times> state" where
  "internalStaticAlloc st sz =
     (let vPtr = ullStatic + 8 * sIndex st;
          sIndex' = sIndex st + (sz + 7) div 8
      in if sIndex' \<ge> 0x3000 then Inl BootstrapExhausted
         else Inr (vPtr, st\<lparr>sIndex := sIndex'\<rparr>))"

definition internalFree :: "state \<Rightarrow> addr \<Rightarrow> int \<Rightarrow> abort + state" where
  "internalFree st vPtr iLen =
     (case verifyIntegrity (mem st) vPtr of
        Inl e \<Rightarrow> Inl e
      | Inr mHead \<Rightarrow>
          if \<not> gp_orgFree st then Inl NullFunctionCall
          else
            let st1 = org_free (st\<lparr>mem := detach (mem st) mHead\<rparr>) mHead
            in if \<not> gi_hookDisabled st1
               then Inr (st1\<lparr>gi_allocCount := gi_allocCount st1 - 1\<rparr>)
               else Inr st1)"

section \<open>The intercepted entry points\<close>

definition malloc :: "state \<Rightarrow> 64 word \<Rightarrow> addr \<Rightarrow> abort + addr \<times> state" where
  "malloc st sz r =
     (if \<not> gp_orgMalloc st then internalStaticAlloc st sz
      else internalRealloc st 0 sz 1 MALLOC r)"

definition realloc :: "state \<Rightarrow> addr \<Rightarrow> 64 word \<Rightarrow> addr \<Rightarrow> abort + addr \<times> state" where
  "realloc st vPtr sz r =
     (if \<not> gp_orgRealloc st then Inl ReallocBeforeInit
      else internalRealloc st vPtr sz 1 REALLOC r)"

definition free :: "state \<Rightarrow> addr \<Rightarrow> abort + state" where
  "free st vPtr = (if vPtr \<noteq> 0 then internalFree st vPtr 4 else Inr st)"

text \<open>
  The constructor \<open>init\<close>: resolve the underlying allocator, empty the list, and make one
  tracked \<open>malloc (0)\<close>, whose block is never released.
\<close>

definition init :: "state \<Rightarrow> addr \<Rightarrow> abort + state" where
  "init st r =
     (let st1 = st\<lparr>gp_orgMalloc := True, gp_orgFree := True, gp_orgRealloc := True\<rparr>;
          st2 = st1\<lparr>mem := LIST_INIT (mem st1) gp_listHead\<rparr>
      in case malloc st2 0 r of Inl e \<Rightarrow> Inl e | Inr (p, st3) \<Rightarrow> Inr st3)"

section \<open>Diagnostics\<close>

text \<open>
  Each diagnostic walks the list from \<open>gp_listHead.lh_first\<close> along \<open>le_next\<close>. Nothing
  in the code bounds the walk, so each loop is a partial function: \<open>None\<close> stands for a
  walk that never ends, \<open>Some (Inl e)\<close> for an abort, \<open>Some (Inr v)\<close> for a return.
\<close>

partial_function (option) usage_loop :: "memory \<Rightarrow> addr \<Rightarrow> 64 word \<Rightarrow> (abort + 64 word) option" where
  "usage_loop m ml acc =
     (if ml = 0 then Some (Inr acc)
      else case verifyIntegrity m (ml + sizeof_memoryHeader) of
             Inl e \<Rightarrow> Some (Inl e)
           | Inr _ \<Rightarrow>
               usage_loop m (load64 m (ml + 24))
                 (if load64 m ml \<noteq> 0 then acc + load64 m (ml + 8) else acc))"

definition mem_get_usage :: "state \<Rightarrow> (abort + 64 word) option" where
  "mem_get_usage st = usage_loop (mem st) (load64 (mem st) gp_listHead) 0"

partial_function (option) real_usage_loop ::
  "memory \<Rightarrow> addr \<Rightarrow> 64 word \<Rightarrow> (abort + 64 word) option" where
  "real_usage_loop m ml acc =
     (if ml = 0 then Some (Inr acc)
      else case verifyIntegrity m (ml + sizeof_memoryHeader) of
             Inl e \<Rightarrow> Some (Inl e)
           | Inr _ \<Rightarrow>
               real_usage_loop m (load64 m (ml + 24))
                 (acc + (load64 m (ml + 8) + sizeof_memoryHeader + sizeof_memoryCap)))"

definition mem_get_real_usage :: "state \<Rightarrow> (abort + 64 word) option" where
  "mem_get_real_usage st = real_usage_loop (mem st) (load64 (mem st) gp_listHead) 0"



partial_function (option) ignore_loop :: "memory \<Rightarrow> addr \<Rightarrow> memory option" where
  "ignore_loop m ml =
     (if ml = 0 then Some m
      else ignore_loop (store64 (LIST_REMOVE m ml) (ml + 32) 0)
             (load64 (store64 (LIST_REMOVE m ml) (ml + 32) 0) (ml + 24)))"

definition mem_ignore_current_allocations :: "state \<Rightarrow> state option" where
  "mem_ignore_current_allocations st =
     (case ignore_loop (mem st) (load64 (mem st) gp_listHead) of
        None \<Rightarrow> None
      | Some m \<Rightarrow> Some (st\<lparr>mem := m, gi_allocCount := 0\<rparr>))"








section \<open>Concrete states\<close>

text \<open>
  The process before the constructor has run, with zeroed memory, and the same process after
  \<open>init\<close>, when the C library placed the constructor's block at \<open>0x1000\<close>.
\<close>

definition fresh_state :: state where
  "fresh_state =
     \<lparr>mem = (\<lambda>_. 0), gi_allocCount = 0, gi_hookDisabled = False, gp_orgMalloc = False,
      gp_orgRealloc = False, gp_orgFree = False, sIndex = 0, thread_self = 1,
      heap_blocks = Map.empty\<rparr>"

definition ready_state :: state where
  "ready_state = (case init fresh_state 0x1000 of Inr st \<Rightarrow> st | Inl e \<Rightarrow> fresh_state)"

text \<open>The process of \<open>ready_state\<close> after one more \<open>malloc (8)\<close>, answered at \<open>0x2000\<close>.\<close>

definition one_block_state :: state where
  "one_block_state =
     (case malloc ready_state 8 0x2000 of Inr (p, st) \<Rightarrow> st | Inl e \<Rightarrow> ready_state)"

text \<open>
  \<open>ready_state\<close> as an allocation made from inside the library's own diagnostics finds it:
  the re-entrancy flag is set.
\<close>

definition nested_state :: state where
  "nested_state = ready_state\<lparr>gi_hookDisabled := True\<rparr>"

text \<open>The process of \<open>ready_state\<close> after \<open>malloc (SIZE_MAX)\<close>, answered at \<open>0x2000\<close>.\<close>

definition max_size_state :: state where
  "max_size_state =
     (case malloc ready_state (- 1) 0x2000 of Inr (p, st) \<Rightarrow> st | Inl e \<Rightarrow> ready_state)"

text \<open>
  The process of \<open>one_block_state\<close> after \<open>realloc (p, 100)\<close> on its 8-byte block, refused
  by the underlying allocator.
\<close>

definition failed_realloc_state :: state where
  "failed_realloc_state =
     (case realloc one_block_state 0x2038 100 0 of Inr (p, st) \<Rightarrow> st | Inl e \<Rightarrow> one_block_state)"

section \<open>Notions used to state and prove the properties\<close>

text \<open>
  An arc is a run of addresses that starts at \<open>a\<close> and is \<open>n\<close> bytes long; two arcs are
  separate when neither start lies inside the other. \<open>foot h sz\<close> is the number of bytes a
  record with payload size \<open>sz\<close> occupies from its header at \<open>h\<close> to the end of its cap;
  for a header on an 8-byte boundary this is the length \<open>adjust_size sz 1\<close> that
  \<open>internalRealloc\<close> requests. \<open>chain m cell xs\<close> says that the pointer stored at \<open>cell\<close>
  starts a well-linked list whose headers are \<open>xs\<close>, in order; \<open>registry\<close> is that list
  hanging off \<open>gp_listHead\<close>, every record within the address space and apart from the
  others and from the list head. \<open>fresh\<close> says the same of a block the underlying
  allocator is about to hand out. \<open>intact\<close> is the condition \<open>verifyIntegrity\<close> checks.
\<close>

definition sep :: "addr \<Rightarrow> nat \<Rightarrow> addr \<Rightarrow> nat \<Rightarrow> bool" where
  "sep a n b k \<longleftrightarrow> n \<le> unat (b - a) \<and> k \<le> unat (a - b)"

definition arc :: "addr \<Rightarrow> nat \<Rightarrow> addr set" where
  "arc a n = {x. unat (x - a) < n}"

definition pad_len :: "addr \<Rightarrow> nat" where
  "pad_len x = (8 - unat x mod 8) mod 8"

definition pad_fill :: "memory \<Rightarrow> addr \<Rightarrow> nat \<Rightarrow> memory" where
  "pad_fill m x p = (\<lambda>y. if unat (y - x) < p then ucast y else m y)"

definition only_in :: "addr set \<Rightarrow> memory \<Rightarrow> memory \<Rightarrow> bool" where
  "only_in S m m' \<longleftrightarrow> (\<forall>x. x \<notin> S \<longrightarrow> m' x = m x)"

definition foot :: "addr \<Rightarrow> 64 word \<Rightarrow> nat" where
  "foot h sz = 72 + unat sz + pad_len (h + 56 + sz)"

definition hdr_phase :: "memory \<Rightarrow> addr \<Rightarrow> addr \<Rightarrow> 64 word \<Rightarrow> 64 word \<Rightarrow> memory" where
  "hdr_phase m r c sz tid =
     store64 (store64 (LIST_INSERT_HEAD
       (store64 (store64 (store64 (store64 (store64 m r c) (r + 8) sz) (r + 16) tid) (r + 24) 0)
          (r + 32) 0) gp_listHead r) (r + 40) GUARD_BAND_TOP) (r + 48) GUARD_BAND_TOP"

definition intact :: "memory \<Rightarrow> addr \<Rightarrow> bool" where
  "intact m h \<longleftrightarrow>
     (let sz = load64 m (h + 8); e = h + 56 + sz; p = pad_len e; c = h + 56 + (sz + of_nat p)
      in load64 m (h + 40) = GUARD_BAND_TOP \<and> load64 m (h + 48) = GUARD_BAND_TOP
         \<and> (\<forall>y \<in> arc e p. m y = ucast y)
         \<and> load64 m c = GUARD_BAND_BOTTOM \<and> load64 m (c + 8) = GUARD_BAND_BOTTOM)"

definition tail_phase :: "memory \<Rightarrow> addr \<Rightarrow> 64 word \<Rightarrow> memory" where
  "tail_phase m r sz =
     store64 (store64 (pad_fill m (r + 56 + sz) (pad_len (r + 56 + sz)))
        (r + 56 + (sz + of_nat (pad_len (r + 56 + sz)))) GUARD_BAND_BOTTOM)
        (r + 56 + (sz + of_nat (pad_len (r + 56 + sz))) + 8) GUARD_BAND_BOTTOM"

definition blk :: "memory \<Rightarrow> addr \<Rightarrow> nat" where
  "blk m h = foot h (load64 m (h + 8))"

definition body :: "memory \<Rightarrow> addr \<Rightarrow> addr set" where
  "body m h = arc h (blk m h) - arc (h + 24) 16"

fun chain :: "memory \<Rightarrow> addr \<Rightarrow> addr list \<Rightarrow> bool" where
  "chain m cell [] = (load64 m cell = 0)"
| "chain m cell (x # xs) =
     (load64 m cell = x \<and> x \<noteq> 0 \<and> load64 m (x + 32) = cell \<and> chain m (x + 24) xs)"

fun seps :: "memory \<Rightarrow> addr list \<Rightarrow> bool" where
  "seps m [] = True"
| "seps m (h # hs) =
     (unat (load64 m (h + 8)) + 80 \<le> 2 ^ 64 \<and> unat h + blk m h \<le> 2 ^ 64
      \<and> sep h (blk m h) gp_listHead 8
      \<and> (\<forall>x \<in> set hs. sep h (blk m h) x (blk m x)) \<and> seps m hs)"

definition registry :: "memory \<Rightarrow> addr list \<Rightarrow> bool" where
  "registry m xs \<longleftrightarrow> chain m gp_listHead xs \<and> seps m xs"

definition fresh :: "memory \<Rightarrow> addr list \<Rightarrow> addr \<Rightarrow> 64 word \<Rightarrow> bool" where
  "fresh m xs r sz \<longleftrightarrow>
     r \<noteq> 0 \<and> unat sz + 80 \<le> 2 ^ 64 \<and> unat r + foot r sz \<le> 2 ^ 64
     \<and> sep r (foot r sz) gp_listHead 8 \<and> (\<forall>x \<in> set xs. sep r (foot r sz) x (blk m x))"



definition tracked :: "state \<Rightarrow> addr list \<Rightarrow> bool" where
  "tracked st xs \<longleftrightarrow>
     gp_orgMalloc st \<and> gp_orgRealloc st \<and> gp_orgFree st \<and> registry (mem st) xs
     \<and> (\<forall>x \<in> set xs. verifyIntegrity (mem st) (x + 56) = Inr x)"

definition usage_sum :: "memory \<Rightarrow> addr list \<Rightarrow> 64 word" where
  "usage_sum m xs = sum_list (map (\<lambda>x. if load64 m x \<noteq> 0 then load64 m (x + 8) else 0) xs)"

definition real_usage_sum :: "memory \<Rightarrow> addr list \<Rightarrow> 64 word" where
  "real_usage_sum m xs =
     sum_list (map (\<lambda>x. load64 m (x + 8) + sizeof_memoryHeader + sizeof_memoryCap) xs)"

fun mallocs :: "state \<Rightarrow> (64 word \<times> addr) list \<Rightarrow> abort + state" where
  "mallocs st [] = Inr st"
| "mallocs st ((sz, r) # reqs) =
     (case malloc st sz r of Inl e \<Rightarrow> Inl e | Inr (p, st') \<Rightarrow> mallocs st' reqs)"

fun fresh_all :: "state \<Rightarrow> addr list \<Rightarrow> (64 word \<times> addr) list \<Rightarrow> bool" where
  "fresh_all st xs [] = True"
| "fresh_all st xs ((sz, r) # reqs) =
     (fresh (mem st) xs r sz \<and>
      (case malloc st sz r of Inl e \<Rightarrow> False | Inr (p, st') \<Rightarrow> fresh_all st' (r # xs) reqs))"

definition link_cells :: "addr \<Rightarrow> addr list \<Rightarrow> addr set" where
  "link_cells cell xs = arc cell 8 \<union> (\<Union>x \<in> set xs. arc (x + 24) 16)"

section \<open>Memory lemmas\<close>

lemma neg_unat: "unat (- d :: 64 word) = (if d = 0 then 0 else 2 ^ 64 - unat d)"
  using unat_sub_if_size [of 0 d] by (auto simp: word_size unat_eq_zero)

lemma arc_disj:
  "unat (i::64 word) < n \<Longrightarrow> n \<le> unat d \<Longrightarrow> k \<le> unat (- d) \<Longrightarrow> unat (i - d) < k \<Longrightarrow> False"
  using unat_sub_if_size [of i d]
  by (auto simp: neg_unat word_size split: if_splits)

lemma sep_disj: "sep a n b k \<Longrightarrow> x \<in> arc a n \<Longrightarrow> x \<in> arc b k \<Longrightarrow> False"
proof -
  assume s: "sep a n b k" and xa: "x \<in> arc a n" and xb: "x \<in> arc b k"
  have e1: "x - b = (x - a) - (b - a)" by simp
  have e2: "a - b = - (b - a)" by simp
  from s have "n \<le> unat (b - a)" "k \<le> unat (- (b - a))" unfolding sep_def e2 by simp_all
  moreover from xa have "unat (x - a) < n" by (simp add: arc_def)
  moreover from xb have "unat ((x - a) - (b - a)) < k" unfolding e1 [symmetric] by (simp add: arc_def)
  ultimately show False by (rule_tac arc_disj)
qed

lemma sep_sym: "sep a n b k \<Longrightarrow> sep b k a n"
  by (simp add: sep_def)

lemma unat_mod8: "unat ((x::64 word) mod 8) = unat x mod 8"
  by (simp add: unat_mod)

lemma mod8_nat: "((x::64 word) mod 8 = 0) = (unat x mod 8 = 0)"
  using unat_mod8 [of x] by (metis unat_eq_zero)

lemma unat_succ_mod8: "unat ((x::64 word) + 1) mod 8 = (unat x + 1) mod 8"
  by (simp add: unat_word_ariths mod_mod_cancel)

lemma pad_len_0: "(x::64 word) mod 8 = 0 \<Longrightarrow> pad_len x = 0"
  by (simp add: pad_len_def mod8_nat)

lemma pad_len_lt: "pad_len x < 8"
  by (simp add: pad_len_def)

lemma pad_len_succ_nat:
  "(n::nat) mod 8 \<noteq> 0 \<Longrightarrow> (8 - n mod 8) mod 8 = Suc ((8 - (n + 1) mod 8) mod 8)"
proof -
  assume nz: "n mod 8 \<noteq> 0"
  define k where "k = n mod 8"
  have e: "(n + 1) mod 8 = (k + 1) mod 8" unfolding k_def by (simp add: mod_Suc_eq)
  have "k < 8" unfolding k_def by simp
  with nz have "k = 1 \<or> k = 2 \<or> k = 3 \<or> k = 4 \<or> k = 5 \<or> k = 6 \<or> k = 7"
    unfolding k_def by linarith
  then show ?thesis unfolding e k_def [symmetric] by (elim disjE) simp_all
qed

lemma pad_len_succ: "(x::64 word) mod 8 \<noteq> 0 \<Longrightarrow> pad_len x = Suc (pad_len (x + 1))"
  unfolding pad_len_def unat_succ_mod8 mod8_nat by (rule pad_len_succ_nat)

lemma pad_fill_0: "pad_fill m x 0 = m"
  by (simp add: pad_fill_def)

lemma unat_pred: "(d::64 word) \<noteq> 0 \<Longrightarrow> unat (d - 1) = unat d - 1"
  by (rule unat_minus_one)

lemma pad_fill_Suc: "p < 8 \<Longrightarrow> pad_fill (m(x := ucast x)) (x + 1) p = pad_fill m x (Suc p)"
proof (rule ext)
  fix y
  assume p: "p < 8"
  have e: "y - (x + 1) = (y - x) - 1" by simp
  show "pad_fill (m(x := ucast x)) (x + 1) p y = pad_fill m x (Suc p) y"
  proof (cases "y = x")
    case True
    have "unat (- 1 :: 64 word) = 2 ^ 64 - 1" using neg_unat [of 1] by simp
    with True p show ?thesis by (simp add: pad_fill_def)
  next
    case False
    then have "y - x \<noteq> 0" by simp
    then have "unat ((y - x) - 1) = unat (y - x) - 1" "unat (y - x) \<noteq> 0"
      by (simp_all add: unat_pred unat_eq_zero)
    with False show ?thesis unfolding pad_fill_def e by auto
  qed
qed

lemma fill_padding_eq:
  "fill_padding m u s = (pad_fill m (u + s) (pad_len (u + s)), s + of_nat (pad_len (u + s)))"
proof (induction m u s rule: fill_padding.induct)
  case (1 m ucPtr s)
  show ?case
  proof (cases "(ucPtr + s) mod 8 = 0")
    case True
    then show ?thesis by (subst fill_padding.simps) (simp add: pad_len_0 pad_fill_0)
  next
    case False
    have a: "ucPtr + (s + 1) = (ucPtr + s) + 1" by simp
    note ih = 1 [OF False, unfolded a]
    have r: "fill_padding m ucPtr s = fill_padding (m(ucPtr + s := ucast (ucPtr + s))) ucPtr (s + 1)"
      using False by (subst fill_padding.simps) simp
    show ?thesis unfolding r ih
      by (simp add: pad_len_succ [OF False] pad_fill_Suc pad_len_lt)
  qed
qed

lemma check_padding_Inr_iff:
  "(check_padding m u sz s = Inr s') =
     (s' = s + of_nat (pad_len (u + s)) \<and> (\<forall>y. unat (y - (u + s)) < pad_len (u + s) \<longrightarrow> m y = ucast y))"
proof (induction m u sz s rule: check_padding.induct)
  case (1 m ucPtr sz s)
  show ?case
  proof (cases "(ucPtr + s) mod 8 = 0")
    case True
    then show ?thesis by (subst check_padding.simps) (auto simp add: pad_len_0)
  next
    case False
    have a: "ucPtr + (s + 1) = (ucPtr + s) + 1" by simp
    show ?thesis
    proof (cases "m (ucPtr + s) = ucast (ucPtr + s)")
      case good: True
      have split: "(\<forall>y. unat (y - (ucPtr + s)) < Suc (pad_len (ucPtr + s + 1)) \<longrightarrow> m y = ucast y)
          = (\<forall>y. unat (y - (ucPtr + s + 1)) < pad_len (ucPtr + s + 1) \<longrightarrow> m y = ucast y)"
        (is "?L = ?R")
      proof
        assume l: ?L
        show ?R
        proof (intro allI impI)
          fix y assume h: "unat (y - (ucPtr + s + 1)) < pad_len (ucPtr + s + 1)"
          have e: "y - (ucPtr + s + 1) = (y - (ucPtr + s)) - 1" by simp
          have "y \<noteq> ucPtr + s"
          proof
            assume "y = ucPtr + s"
            then have "unat (y - (ucPtr + s + 1)) = 2 ^ 64 - 1" using neg_unat [of 1] by simp
            with h pad_len_lt [of "ucPtr + s + 1"] show False by simp
          qed
          then have "y - (ucPtr + s) \<noteq> 0" by simp
          then have "unat ((y - (ucPtr + s)) - 1) = unat (y - (ucPtr + s)) - 1"
            "unat (y - (ucPtr + s)) \<noteq> 0"
            by (simp_all add: unat_pred unat_eq_zero)
          with h have "unat (y - (ucPtr + s)) < Suc (pad_len (ucPtr + s + 1))"
            unfolding e by simp
          with l show "m y = ucast y" by blast
        qed
      next
        assume r: ?R
        show ?L
        proof (intro allI impI)
          fix y assume h: "unat (y - (ucPtr + s)) < Suc (pad_len (ucPtr + s + 1))"
          show "m y = ucast y"
          proof (cases "y = ucPtr + s")
            case True with good show ?thesis by simp
          next
            case False
            have e: "y - (ucPtr + s + 1) = (y - (ucPtr + s)) - 1" by simp
            from False have "y - (ucPtr + s) \<noteq> 0" by simp
            then have "unat ((y - (ucPtr + s)) - 1) = unat (y - (ucPtr + s)) - 1"
              "unat (y - (ucPtr + s)) \<noteq> 0"
              by (simp_all add: unat_pred unat_eq_zero)
            with h have "unat (y - (ucPtr + s + 1)) < pad_len (ucPtr + s + 1)"
              unfolding e by simp
            with r show ?thesis by blast
          qed
        qed
      qed
      note ih = 1 [OF False good, unfolded a]
      have r: "check_padding m ucPtr sz s = check_padding m ucPtr sz (s + 1)"
        using False good by (subst check_padding.simps) simp
      show ?thesis unfolding r ih pad_len_succ [OF False] split
        by (simp add: add.assoc)
    next
      case bad: False
      have "unat ((ucPtr + s) - (ucPtr + s)) < pad_len (ucPtr + s)"
        using pad_len_succ [OF False] by simp
      with bad have "\<not> (\<forall>y. unat (y - (ucPtr + s)) < pad_len (ucPtr + s) \<longrightarrow> m y = ucast y)"
        by blast
      with False bad show ?thesis by (subst check_padding.simps) simp
    qed
  qed
qed

lemma only_in_refl: "only_in S m m"
  by (simp add: only_in_def)

lemma only_in_trans: "only_in S m m' \<Longrightarrow> only_in T m' m'' \<Longrightarrow> only_in (S \<union> T) m m''"
  by (simp add: only_in_def)

lemma only_in_mono: "only_in S m m' \<Longrightarrow> S \<subseteq> T \<Longrightarrow> only_in T m m'"
  by (auto simp add: only_in_def)

lemma sep_arcs: "sep a n b k \<Longrightarrow> arc a n \<inter> arc b k = {}"
  using sep_disj by (fastforce simp: arc_def)

lemma only_in_store64: "only_in (arc a 8) m (store64 m a v)"
  by (simp add: only_in_def arc_def store64_def word_less_nat_alt)

lemma only_in_upd: "only_in (arc a 1) m (m(a := v))"
  by (auto simp add: only_in_def arc_def unat_eq_zero)

lemma word_lt8_cases:
  "(j::64 word) < 8 \<Longrightarrow> j = 0 \<or> j = 1 \<or> j = 2 \<or> j = 3 \<or> j = 4 \<or> j = 5 \<or> j = 6 \<or> j = 7"
  by unat_arith

lemma load64_cong: "(\<And>x. x \<in> arc a 8 \<Longrightarrow> m' x = m x) \<Longrightarrow> load64 m' a = load64 m a"
proof -
  assume a: "\<And>x. x \<in> arc a 8 \<Longrightarrow> m' x = m x"
  have "\<And>j. j < 8 \<Longrightarrow> m' (a + j) = m (a + j)"
    by (rule a) (simp add: arc_def word_less_nat_alt)
  from this [of 0] this [of 1] this [of 2] this [of 3] this [of 4] this [of 5] this [of 6] this [of 7]
  show ?thesis unfolding load64_def by simp
qed

lemma load64_only_in: "only_in S m m' \<Longrightarrow> S \<inter> arc a 8 = {} \<Longrightarrow> load64 m' a = load64 m a"
  by (rule load64_cong) (auto simp: only_in_def)

lemma bytes_join:
  "ucast (byte_of v 0) OR push_bit 8 (ucast (byte_of v 1)) OR push_bit 16 (ucast (byte_of v 2))
     OR push_bit 24 (ucast (byte_of v 3)) OR push_bit 32 (ucast (byte_of v 4))
     OR push_bit 40 (ucast (byte_of v 5)) OR push_bit 48 (ucast (byte_of v 6))
     OR push_bit 56 (ucast (byte_of v 7)) = (v :: 64 word)"
  unfolding byte_of_def
  apply (rule bit_word_eqI)
  apply (simp add: bit_simps cong: conj_cong)
  subgoal for n by (cases "bit v n"; simp; presburger)
  done

lemma load64_store64_same: "load64 (store64 m a v) a = v"
  unfolding load64_def store64_def
  using bytes_join [of v] by simp

lemma load64_store64_sep: "sep a 8 b 8 \<Longrightarrow> load64 (store64 m a v) b = load64 m b"
  by (rule load64_only_in [OF only_in_store64 sep_arcs])

lemma byte_of_load64: "j < 8 \<Longrightarrow> byte_of (load64 m a) j = m (a + j)"
  apply (drule word_lt8_cases)
  unfolding byte_of_def load64_def
  apply (elim disjE; simp)
         apply (rule bit_word_eqI; auto simp add: bit_simps dest: bit_imp_le_length)+
  done

lemma load64_inj: "load64 m' a = load64 m a \<Longrightarrow> x \<in> arc a 8 \<Longrightarrow> m' x = m x"
proof -
  assume e: "load64 m' a = load64 m a" and x: "x \<in> arc a 8"
  then have j: "x - a < 8" by (simp add: arc_def word_less_nat_alt)
  have "m' (a + (x - a)) = m (a + (x - a))"
    using byte_of_load64 [OF j, of m' a] byte_of_load64 [OF j, of m a] e by simp
  then show ?thesis by simp
qed

lemma unat_of_nat64: "i < 2 ^ 64 \<Longrightarrow> unat (of_nat i :: 64 word) = i"
  by (simp add: unat_of_nat)

lemma sep_sub:
  assumes s: "sep a n b k" and i: "i + n' \<le> n" and n': "i < n"
  shows "sep (a + of_nat i) n' b k"
proof -
  define d where "d = b - a"
  have e1: "b - (a + of_nat i) = d - of_nat i" and e2: "a + of_nat i - b = of_nat i - d" and e3: "a - b = - d"
    by (simp_all add: d_def)
  from s have nd: "n \<le> unat d" and kd: "k \<le> unat (- d)" unfolding sep_def e3 d_def by simp_all
  have dlt: "unat d < 2 ^ 64" using unsigned_less [of d] by simp
  with nd n' have ilt: "i < 2 ^ 64" by simp
  have ui: "unat (of_nat i :: 64 word) = i" using ilt by (rule unat_of_nat64)
  from nd n' have id: "i < unat d" by simp
  then have d0: "d \<noteq> 0" by auto
  have u1: "unat (d - of_nat i) = unat d - i"
    using id ui unat_sub_if_size [of d "of_nat i"] by simp
  have u2: "unat (of_nat i - d) = i + 2 ^ 64 - unat d"
    using id ui unat_sub_if_size [of "of_nat i :: 64 word" d] by (simp add: word_size)
  have u3: "unat (- d) = 2 ^ 64 - unat d" using d0 by (simp add: neg_unat)
  show ?thesis unfolding sep_def e1 e2 u1 u2 using nd kd i u3 by arith
qed

lemma sep_off:
  assumes "i + n \<le> j" and "i < j" and "j + k \<le> 2 ^ 64 + i" and "j < 2 ^ 64 + i"
  shows "sep (r + of_nat i) n (r + of_nat j) k"
proof -
  have d1: "(of_nat j :: 64 word) - of_nat i = of_nat (j - i)"
    using assms by (simp add: of_nat_diff)
  have d2: "(of_nat i :: 64 word) - of_nat j = - of_nat (j - i)"
    using d1 by (metis minus_diff_eq)
  have lt: "j - i < 2 ^ 64" using assms by simp
  have u: "unat (of_nat (j - i) :: 64 word) = j - i" using lt by (rule unat_of_nat64)
  have nz: "(of_nat (j - i) :: 64 word) \<noteq> 0"
  proof
    assume "(of_nat (j - i) :: 64 word) = 0"
    with u have "j - i = 0" by simp
    with assms show False by simp
  qed
  have "n \<le> j - i" "k \<le> 2 ^ 64 - (j - i)" using assms by simp_all
  then show ?thesis unfolding sep_def using nz
    by (simp add: d1 d2 neg_unat u)
qed

lemma arc_sub:
  assumes "i + n' \<le> n" and "n \<le> 2 ^ 64"
  shows "arc (a + of_nat i) n' \<subseteq> arc a n"
proof
  fix x assume "x \<in> arc (a + of_nat i) n'"
  then have h: "unat (x - (a + of_nat i)) < n'" by (simp add: arc_def)
  have e: "x - a = (x - (a + of_nat i)) + of_nat i" by simp
  have ilt: "i < 2 ^ 64" using assms h by simp
  have "unat ((x - (a + of_nat i)) + of_nat i) = unat (x - (a + of_nat i)) + i"
    using unat_plus_if' [of "x - (a + of_nat i)" "of_nat i"] h assms unat_of_nat64 [OF ilt]
    by simp
  with h assms show "x \<in> arc a n" unfolding arc_def e by simp
qed

lemma only_in_pad_fill: "only_in (arc x p) m (pad_fill m x p)"
  by (simp add: only_in_def arc_def pad_fill_def)

lemma pad_fill_in: "y \<in> arc x p \<Longrightarrow> pad_fill m x p y = ucast y"
  by (simp add: arc_def pad_fill_def)

lemma only_in_frame: "only_in S m m' \<Longrightarrow> x \<notin> S \<Longrightarrow> m' x = m x"
  by (simp add: only_in_def)

lemma load64_pad_fill_sep: "sep x p b 8 \<Longrightarrow> load64 (pad_fill m x p) b = load64 m b"
  by (rule load64_only_in [OF only_in_pad_fill sep_arcs])

lemma sep_num1 [simp]:
  assumes "(numeral i :: nat) + 8 \<le> numeral j" and "(numeral j :: nat) + 8 \<le> 2 ^ 64"
  shows "sep (r + numeral i) 8 (r + numeral j) 8"
proof -
  have a: "numeral j + 8 \<le> 2 ^ 64 + (numeral i :: nat)" using assms(2) by (rule trans_le_add1)
  have b: "(numeral i :: nat) < numeral j" using assms(1) by linarith
  have c: "(numeral j :: nat) < 2 ^ 64 + numeral i" using assms(2) by linarith
  have "sep (r + of_nat (numeral i)) 8 (r + of_nat (numeral j)) 8"
    by (rule sep_off [OF assms(1) b a c])
  then show ?thesis by simp
qed

lemma sep_num2 [simp]:
  assumes "(numeral j :: nat) + 8 \<le> numeral i" and "(numeral i :: nat) + 8 \<le> 2 ^ 64"
  shows "sep (r + numeral i) 8 (r + numeral j) 8"
  by (rule sep_sym) (rule sep_num1 [OF assms])

lemma sep_num3 [simp]:
  assumes "(8 :: nat) \<le> numeral j" and "(numeral j :: nat) + 8 \<le> 2 ^ 64"
  shows "sep r 8 (r + numeral j) 8"
proof -
  have a: "numeral j + 8 \<le> 2 ^ 64 + (0 :: nat)" using assms(2) by simp
  have b: "(0 :: nat) < numeral j" using assms(1) by linarith
  have c: "(numeral j :: nat) < 2 ^ 64 + 0" using assms(2) by linarith
  have d: "(0 :: nat) + 8 \<le> numeral j" using assms(1) by simp
  have "sep (r + of_nat 0) 8 (r + of_nat (numeral j)) 8"
    by (rule sep_off [OF d b a c])
  then show ?thesis by simp
qed

lemma sep_num4 [simp]:
  assumes "(8 :: nat) \<le> numeral j" and "(numeral j :: nat) + 8 \<le> 2 ^ 64"
  shows "sep (r + numeral j) 8 r 8"
  by (rule sep_sym) (rule sep_num3 [OF assms])

lemma hdr_cells_ext:
  assumes s: "sep r L x k" and L: "72 \<le> L"
  shows "sep r 8 x k \<and> sep (r + 8) 8 x k \<and> sep (r + 16) 8 x k \<and> sep (r + 24) 8 x k
     \<and> sep (r + 32) 8 x k \<and> sep (r + 40) 8 x k \<and> sep (r + 48) 8 x k
     \<and> sep x k r 8 \<and> sep x k (r + 8) 8 \<and> sep x k (r + 16) 8 \<and> sep x k (r + 24) 8
     \<and> sep x k (r + 32) 8 \<and> sep x k (r + 40) 8 \<and> sep x k (r + 48) 8"
proof -
  have a: "\<And>i. i + 8 \<le> L \<Longrightarrow> sep (r + of_nat i) 8 x k"
    by (rule sep_sub [OF s]) simp_all
  from L have "sep (r + of_nat 0) 8 x k" "sep (r + of_nat 8) 8 x k" "sep (r + of_nat 16) 8 x k"
    "sep (r + of_nat 24) 8 x k" "sep (r + of_nat 32) 8 x k" "sep (r + of_nat 40) 8 x k"
    "sep (r + of_nat 48) 8 x k"
    by (simp_all only: a)
  then show ?thesis by (simp add: sep_sym)
qed

lemmas ld = load64_store64_same load64_store64_sep

lemma hdr_phase_props:
  fixes m r c sz tid
  defines "first \<equiv> load64 m gp_listHead"
  defines "M \<equiv> hdr_phase m r c sz tid"
  assumes L: "72 \<le> L"
    and hd: "sep r L gp_listHead 8"
    and fs: "first \<noteq> 0 \<Longrightarrow> sep r L (first + 32) 8"
    and fh: "first \<noteq> 0 \<Longrightarrow> sep (first + 32) 8 gp_listHead 8"
  shows "load64 M r = c" "load64 M (r + 8) = sz" "load64 M (r + 24) = first"
    "load64 M (r + 32) = gp_listHead" "load64 M gp_listHead = r"
    "first \<noteq> 0 \<Longrightarrow> load64 M (first + 32) = r + 24"
    "load64 M (r + 40) = GUARD_BAND_TOP" "load64 M (r + 48) = GUARD_BAND_TOP"
proof -
  note x = hdr_cells_ext [OF hd L]
  have f1: "load64 (store64 (store64 (store64 (store64 (store64 m r c) (r + 8) sz) (r + 16) tid)
      (r + 24) 0) (r + 32) 0) gp_listHead = first"
    using x by (simp add: ld first_def)
  show "load64 M r = c" "load64 M (r + 8) = sz" "load64 M (r + 24) = first"
    "load64 M (r + 32) = gp_listHead" "load64 M gp_listHead = r"
    "load64 M (r + 40) = GUARD_BAND_TOP" "load64 M (r + 48) = GUARD_BAND_TOP"
    unfolding M_def hdr_phase_def LIST_INSERT_HEAD_def Let_def f1
    using x hdr_cells_ext [OF fs L] fh
    by (simp_all add: ld sep_sym first_def [symmetric])
  show "first \<noteq> 0 \<Longrightarrow> load64 M (first + 32) = r + 24"
    unfolding M_def hdr_phase_def LIST_INSERT_HEAD_def Let_def f1
    using x hdr_cells_ext [OF fs L] fh
    by (simp add: ld sep_sym first_def [symmetric])
qed


lemma verify_iff: "(verifyIntegrity m (h + 56) = Inr h') = (h' = h \<and> intact m h)"
proof (cases "check_padding m (h + 56) (load64 m (h + 8)) (load64 m (h + 8))")
  case (Inl e)
  then have "\<not> (\<forall>y. unat (y - (h + 56 + load64 m (h + 8))) < pad_len (h + 56 + load64 m (h + 8)) \<longrightarrow> m y = ucast y)"
    using check_padding_Inr_iff [of m "h + 56" "load64 m (h + 8)" "load64 m (h + 8)"] by simp
  then have "\<not> intact m h" by (auto simp: intact_def Let_def arc_def)
  with Inl show ?thesis
    by (simp add: verifyIntegrity_def Let_def sizeof_memoryHeader_def)
next
  case (Inr s)
  then have s: "s = load64 m (h + 8) + of_nat (pad_len (h + 56 + load64 m (h + 8)))"
    and pd: "\<forall>y. unat (y - (h + 56 + load64 m (h + 8))) < pad_len (h + 56 + load64 m (h + 8)) \<longrightarrow> m y = ucast y"
    using check_padding_Inr_iff [of m "h + 56" "load64 m (h + 8)" "load64 m (h + 8)" s] by simp_all
  show ?thesis using Inr pd unfolding s
    by (auto simp add: verifyIntegrity_def Let_def sizeof_memoryHeader_def intact_def arc_def)
qed

lemma verify_intact: "intact m h \<Longrightarrow> verifyIntegrity m (h + 56) = Inr h"
  by (simp add: verify_iff)


lemma E_eq: "r + 56 + sz = r + of_nat (56 + unat sz)"
  by simp

lemma C_eq: "r + 56 + (sz + of_nat p) = r + of_nat (56 + unat sz + p)"
  by simp

lemma C8_eq: "r + 56 + (sz + of_nat p) + 8 = r + of_nat (64 + unat sz + p)"
  by simp

lemma tail_phase_props:
  fixes m r sz
  defines "p \<equiv> pad_len (r + 56 + sz)"
  defines "M \<equiv> tail_phase m r sz"
  assumes sz: "unat sz + 80 \<le> 2 ^ 64"
  shows "\<forall>y \<in> arc (r + 56 + sz) p. M y = ucast y"
    and "load64 M (r + 56 + (sz + of_nat p)) = GUARD_BAND_BOTTOM"
    and "load64 M (r + 56 + (sz + of_nat p) + 8) = GUARD_BAND_BOTTOM"
    and "only_in (arc (r + 56 + sz) (p + 16)) m M"
proof -
  have p8: "p < 8" unfolding p_def by (rule pad_len_lt)
  define C where "C = r + 56 + (sz + of_nat p)"
  show "load64 M (r + 56 + (sz + of_nat p)) = GUARD_BAND_BOTTOM"
    and "load64 M (r + 56 + (sz + of_nat p) + 8) = GUARD_BAND_BOTTOM"
    unfolding M_def tail_phase_def p_def [symmetric] C_def [symmetric] by (simp_all add: ld)
  show "\<forall>y \<in> arc (r + 56 + sz) p. M y = ucast y"
  proof
    fix y assume y: "y \<in> arc (r + 56 + sz) p"
    then have p0: "0 < p" by (auto simp: arc_def)
    have "sep (r + of_nat (56 + unat sz)) p (r + of_nat (56 + unat sz + p)) 8"
      using sz p8 p0 by (intro sep_off) simp_all
    then have s1: "sep (r + 56 + sz) p (r + 56 + (sz + of_nat p)) 8"
      unfolding E_eq [of r sz, symmetric] C_eq [of r sz p, symmetric] .
    have "sep (r + of_nat (56 + unat sz)) p (r + of_nat (64 + unat sz + p)) 8"
      using sz p8 p0 by (intro sep_off) simp_all
    then have s2: "sep (r + 56 + sz) p (r + 56 + (sz + of_nat p) + 8) 8"
      unfolding E_eq [of r sz, symmetric] C8_eq [of r sz p, symmetric] .
    from sep_disj [OF s1 y] sep_disj [OF s2 y]
    have "y \<notin> arc (r + 56 + (sz + of_nat p)) 8" "y \<notin> arc (r + 56 + (sz + of_nat p) + 8) 8" by auto
    then show "M y = ucast y"
      unfolding M_def tail_phase_def p_def [symmetric] C_def [symmetric]
      using only_in_frame [OF only_in_store64] pad_fill_in [OF y] by simp
  qed
  have a1: "arc (r + 56 + (sz + of_nat p)) 8 \<subseteq> arc (r + 56 + sz) (p + 16)"
    using arc_sub [of p 8 "p + 16" "r + 56 + sz"] p8 by (simp add: add.assoc)
  have a2: "arc (r + 56 + (sz + of_nat p) + 8) 8 \<subseteq> arc (r + 56 + sz) (p + 16)"
    using arc_sub [of "p + 8" 8 "p + 16" "r + 56 + sz"] p8 by (simp add: add.assoc)
  have a3: "arc (r + 56 + sz) p \<subseteq> arc (r + 56 + sz) (p + 16)"
    by (auto simp: arc_def)
  have "only_in (arc (r + 56 + sz) p \<union> arc C 8 \<union> arc (C + 8) 8) m M"
    unfolding M_def tail_phase_def p_def [symmetric] C_def [symmetric]
    by (rule only_in_trans [OF only_in_trans [OF only_in_pad_fill only_in_store64] only_in_store64])
  then show "only_in (arc (r + 56 + sz) (p + 16)) m M"
    by (rule only_in_mono) (use a1 a2 a3 in \<open>auto simp: C_def\<close>)
qed

lemma hdr_phase_eq:
  fixes m r c sz tid
  defines "first \<equiv> load64 m gp_listHead"
  assumes L: "72 \<le> L" and hd: "sep r L gp_listHead 8"
  shows "hdr_phase m r c sz tid =
     store64 (store64 (store64 (store64
       (if first \<noteq> 0
        then store64 (store64 (store64 (store64 (store64 (store64 (store64 m r c) (r + 8) sz) (r + 16) tid)
               (r + 24) 0) (r + 32) 0) (r + 24) first) (first + 32) (r + 24)
        else store64 (store64 (store64 (store64 (store64 (store64 m r c) (r + 8) sz) (r + 16) tid)
               (r + 24) 0) (r + 32) 0) (r + 24) first)
       gp_listHead r) (r + 32) gp_listHead) (r + 40) GUARD_BAND_TOP) (r + 48) GUARD_BAND_TOP"
  unfolding hdr_phase_def LIST_INSERT_HEAD_def Let_def
  using hdr_cells_ext [OF hd L]
  by (simp add: ld first_def [symmetric])

lemma cells_in_hdr:
  "x \<notin> arc r 56 \<Longrightarrow> \<not> x - r < 8 \<and> \<not> x - (r + 8) < 8 \<and> \<not> x - (r + 16) < 8 \<and> \<not> x - (r + 24) < 8
     \<and> \<not> x - (r + 32) < 8 \<and> \<not> x - (r + 40) < 8 \<and> \<not> x - (r + 48) < 8"
proof -
  assume x: "x \<notin> arc r 56"
  have a: "\<And>i. i + 8 \<le> 56 \<Longrightarrow> x \<notin> arc (r + of_nat i) 8"
    using arc_sub [of _ 8 56 r] x by auto
  have "x \<notin> arc (r + of_nat 0) 8" "x \<notin> arc (r + of_nat 8) 8" "x \<notin> arc (r + of_nat 16) 8"
    "x \<notin> arc (r + of_nat 24) 8" "x \<notin> arc (r + of_nat 32) 8" "x \<notin> arc (r + of_nat 40) 8"
    "x \<notin> arc (r + of_nat 48) 8"
    by (rule a, simp)+
  then show ?thesis by (simp add: arc_def word_less_nat_alt)
qed

lemma hdr_phase_only_in:
  fixes m r c sz tid
  defines "first \<equiv> load64 m gp_listHead"
  assumes L: "72 \<le> L" and hd: "sep r L gp_listHead 8"
  shows "only_in (arc r 56 \<union> arc gp_listHead 8 \<union> (if first \<noteq> 0 then arc (first + 32) 8 else {}))
           m (hdr_phase m r c sz tid)"
  unfolding hdr_phase_eq [OF L hd] first_def [symmetric] only_in_def
  by (auto simp: store64_def arc_def word_less_nat_alt dest!: cells_in_hdr [unfolded arc_def, simplified])

lemma foot_ge: "72 \<le> foot r sz"
  by (simp add: foot_def)

lemma build_record_eq:
  assumes hd: "sep r (foot r sz) gp_listHead 8"
    and fs: "load64 m gp_listHead \<noteq> 0 \<Longrightarrow> sep r (foot r sz) (load64 m gp_listHead + 32) 8"
    and fh: "load64 m gp_listHead \<noteq> 0 \<Longrightarrow> sep (load64 m gp_listHead + 32) 8 gp_listHead 8"
  shows "build_record m r c sz tid = tail_phase (hdr_phase m r c sz tid) r sz"
proof -
  have s: "load64 (hdr_phase m r c sz tid) (r + 8) = sz"
    by (rule hdr_phase_props(2) [OF foot_ge hd fs fh])
  show ?thesis
    using s unfolding build_record_def tail_phase_def hdr_phase_def
    by (simp add: Let_def fill_padding_eq sizeof_memoryHeader_def)
qed

lemma tail_sep_cells:
  assumes sz: "unat sz + 80 \<le> 2 ^ 64"
  shows "sep (r + 56 + sz) (pad_len (r + 56 + sz) + 16) r 8"
    "sep (r + 56 + sz) (pad_len (r + 56 + sz) + 16) (r + 8) 8"
    "sep (r + 56 + sz) (pad_len (r + 56 + sz) + 16) (r + 24) 8"
    "sep (r + 56 + sz) (pad_len (r + 56 + sz) + 16) (r + 32) 8"
    "sep (r + 56 + sz) (pad_len (r + 56 + sz) + 16) (r + 40) 8"
    "sep (r + 56 + sz) (pad_len (r + 56 + sz) + 16) (r + 48) 8"
proof -
  define p where "p = pad_len (r + 56 + sz)"
  have p8: "p < 8" unfolding p_def by (rule pad_len_lt)
  have a: "\<And>i. i + 8 \<le> 56 \<Longrightarrow> sep (r + 56 + sz) (p + 16) (r + of_nat i) 8"
    unfolding E_eq [of r sz] using sz p8 by (intro sep_sym [OF sep_off]) simp_all
  have "sep (r + 56 + sz) (p + 16) (r + of_nat 0) 8" "sep (r + 56 + sz) (p + 16) (r + of_nat 8) 8"
    "sep (r + 56 + sz) (p + 16) (r + of_nat 24) 8" "sep (r + 56 + sz) (p + 16) (r + of_nat 32) 8"
    "sep (r + 56 + sz) (p + 16) (r + of_nat 40) 8" "sep (r + 56 + sz) (p + 16) (r + of_nat 48) 8"
    by (rule a, simp)+
  then show "sep (r + 56 + sz) (pad_len (r + 56 + sz) + 16) r 8"
    "sep (r + 56 + sz) (pad_len (r + 56 + sz) + 16) (r + 8) 8"
    "sep (r + 56 + sz) (pad_len (r + 56 + sz) + 16) (r + 24) 8"
    "sep (r + 56 + sz) (pad_len (r + 56 + sz) + 16) (r + 32) 8"
    "sep (r + 56 + sz) (pad_len (r + 56 + sz) + 16) (r + 40) 8"
    "sep (r + 56 + sz) (pad_len (r + 56 + sz) + 16) (r + 48) 8"
    unfolding p_def by simp_all
qed

lemma tail_sep_ext:
  assumes s: "sep r (foot r sz) x k"
  shows "sep (r + 56 + sz) (pad_len (r + 56 + sz) + 16) x k"
  unfolding E_eq [of r sz]
  by (rule sep_sub [OF s]) (simp_all add: foot_def E_eq [of r sz])

lemma tail_in_foot:
  assumes sz: "unat sz + 80 \<le> 2 ^ 64"
  shows "arc (r + 56 + sz) (pad_len (r + 56 + sz) + 16) \<subseteq> arc r (foot r sz)"
  unfolding E_eq [of r sz]
  using sz pad_len_lt [of "r + 56 + sz"]
  by (intro arc_sub) (simp_all add: foot_def E_eq [of r sz])

lemma hdr_in_foot:
  assumes sz: "unat sz + 80 \<le> 2 ^ 64"
  shows "arc r 56 \<subseteq> arc r (foot r sz)"
  by (auto simp: arc_def foot_def)

lemma build_record_props:
  fixes m r c sz tid
  defines "first \<equiv> load64 m gp_listHead"
  defines "M \<equiv> build_record m r c sz tid"
  assumes sz: "unat sz + 80 \<le> 2 ^ 64"
    and hd: "sep r (foot r sz) gp_listHead 8"
    and fs: "first \<noteq> 0 \<Longrightarrow> sep r (foot r sz) (first + 32) 8"
    and fh: "first \<noteq> 0 \<Longrightarrow> sep (first + 32) 8 gp_listHead 8"
  shows "load64 M r = c" "load64 M (r + 8) = sz" "load64 M (r + 24) = first"
    "load64 M (r + 32) = gp_listHead" "load64 M gp_listHead = r"
    "first \<noteq> 0 \<Longrightarrow> load64 M (first + 32) = r + 24"
    "intact M r"
    "only_in (arc r (foot r sz) \<union> arc gp_listHead 8 \<union> (if first \<noteq> 0 then arc (first + 32) 8 else {})) m M"
proof -
  define H where "H = hdr_phase m r c sz tid"
  have M: "M = tail_phase H r sz"
    unfolding M_def H_def using hd fs fh unfolding first_def by (rule build_record_eq)
  note hp = hdr_phase_props [OF foot_ge hd fs [unfolded first_def] fh [unfolded first_def],
      where c = c and tid = tid and sz = sz, folded H_def first_def]
  note tp = tail_phase_props [OF sz, where m = H and r = r, folded M]
  note oi = tp(4)
  have fr: "\<And>b. sep (r + 56 + sz) (pad_len (r + 56 + sz) + 16) b 8 \<Longrightarrow> load64 M b = load64 H b"
    by (rule load64_only_in [OF oi sep_arcs])
  note ts = tail_sep_cells [OF sz, of r]
  show "load64 M r = c" using fr [OF ts(1)] hp(1) by simp
  show s8: "load64 M (r + 8) = sz" using fr [OF ts(2)] hp(2) by simp
  show "load64 M (r + 24) = first" using fr [OF ts(3)] hp(3) by simp
  show "load64 M (r + 32) = gp_listHead" using fr [OF ts(4)] hp(4) by simp
  show "load64 M gp_listHead = r" using fr [OF tail_sep_ext [OF hd]] hp(5) by simp
  show "first \<noteq> 0 \<Longrightarrow> load64 M (first + 32) = r + 24"
    using fr [OF tail_sep_ext [OF fs]] hp(6) by simp
  show "intact M r"
    unfolding intact_def Let_def s8
    using fr [OF ts(5)] fr [OF ts(6)] hp(7) hp(8) tp(1) tp(2) tp(3) by simp
  have "only_in ((arc r 56 \<union> arc gp_listHead 8 \<union> (if first \<noteq> 0 then arc (first + 32) 8 else {}))
          \<union> arc (r + 56 + sz) (pad_len (r + 56 + sz) + 16)) m M"
    using hdr_phase_only_in [OF foot_ge hd, where m = m and c = c and sz = sz and tid = tid] oi unfolding H_def first_def
    by (rule only_in_trans)
  then show "only_in (arc r (foot r sz) \<union> arc gp_listHead 8 \<union> (if first \<noteq> 0 then arc (first + 32) 8 else {})) m M"
    by (rule only_in_mono) (use tail_in_foot [OF sz, of r] hdr_in_foot [OF sz, of r] in auto)
qed

lemma tail_arcs:
  fixes r sz
  defines "p \<equiv> pad_len (r + 56 + sz)"
  shows "arc (r + 56 + (sz + of_nat p)) 8 \<subseteq> arc (r + 56 + sz) (p + 16)"
    and "arc (r + 56 + (sz + of_nat p) + 8) 8 \<subseteq> arc (r + 56 + sz) (p + 16)"
    and "arc (r + 56 + sz) p \<subseteq> arc (r + 56 + sz) (p + 16)"
proof -
  have p8: "p < 8" unfolding p_def by (rule pad_len_lt)
  show "arc (r + 56 + (sz + of_nat p)) 8 \<subseteq> arc (r + 56 + sz) (p + 16)"
    using arc_sub [of p 8 "p + 16" "r + 56 + sz"] p8 by (simp add: add.assoc)
  show "arc (r + 56 + (sz + of_nat p) + 8) 8 \<subseteq> arc (r + 56 + sz) (p + 16)"
    using arc_sub [of "p + 8" 8 "p + 16" "r + 56 + sz"] p8 by (simp add: add.assoc)
  show "arc (r + 56 + sz) p \<subseteq> arc (r + 56 + sz) (p + 16)"
    by (auto simp: arc_def)
qed

lemma sep16:
  "sep r 8 (r + 24) 16" "sep (r + 8) 8 (r + 24) 16" "sep (r + 40) 8 (r + 24) 16"
  "sep (r + 48) 8 (r + 24) 16"
proof -
  have a: "sep (r + of_nat 0) 8 (r + of_nat 24) 16" by (rule sep_off) simp_all
  have b: "sep (r + of_nat 8) 8 (r + of_nat 24) 16" by (rule sep_off) simp_all
  have c: "sep (r + of_nat 24) 16 (r + of_nat 40) 8" by (rule sep_off) simp_all
  have d: "sep (r + of_nat 24) 16 (r + of_nat 48) 8" by (rule sep_off) simp_all
  from a show "sep r 8 (r + 24) 16" by simp
  from b show "sep (r + 8) 8 (r + 24) 16" by simp
  from c show "sep (r + 40) 8 (r + 24) 16" by (simp add: sep_sym)
  from d show "sep (r + 48) 8 (r + 24) 16" by (simp add: sep_sym)
qed

lemma tail_sep_links:
  assumes sz: "unat sz + 80 \<le> 2 ^ 64"
  shows "sep (r + 56 + sz) (pad_len (r + 56 + sz) + 16) (r + 24) 16"
proof -
  have "sep (r + of_nat 24) 16 (r + of_nat (56 + unat sz)) (pad_len (r + 56 + sz) + 16)"
    using sz pad_len_lt [of "r + 56 + sz"] by (intro sep_off) simp_all
  then show ?thesis unfolding E_eq [of r sz, symmetric] by (simp add: sep_sym)
qed

lemma cells_in_body:
  assumes sz: "unat (load64 m (h + 8)) + 80 \<le> 2 ^ 64"
  shows "arc h 8 \<subseteq> body m h" "arc (h + 8) 8 \<subseteq> body m h" "arc (h + 40) 8 \<subseteq> body m h"
    "arc (h + 48) 8 \<subseteq> body m h"
    "arc (h + 56 + load64 m (h + 8)) (pad_len (h + 56 + load64 m (h + 8)) + 16) \<subseteq> body m h"
proof -
  have L: "72 \<le> blk m h" "blk m h \<le> 2 ^ 64"
    using sz pad_len_lt [of "h + 56 + load64 m (h + 8)"] by (simp_all add: blk_def foot_def)
  have a: "\<And>i. i + 8 \<le> 72 \<Longrightarrow> arc (h + of_nat i) 8 \<subseteq> arc h (blk m h)"
    using L by (intro arc_sub) simp_all
  have "arc (h + of_nat 0) 8 \<subseteq> arc h (blk m h)" "arc (h + of_nat 8) 8 \<subseteq> arc h (blk m h)"
    "arc (h + of_nat 40) 8 \<subseteq> arc h (blk m h)" "arc (h + of_nat 48) 8 \<subseteq> arc h (blk m h)"
    by (rule a, simp)+
  then show "arc h 8 \<subseteq> body m h" "arc (h + 8) 8 \<subseteq> body m h" "arc (h + 40) 8 \<subseteq> body m h"
    "arc (h + 48) 8 \<subseteq> body m h"
    using sep_arcs [OF sep16(1) [of h]] sep_arcs [OF sep16(2) [of h]]
      sep_arcs [OF sep16(3) [of h]] sep_arcs [OF sep16(4) [of h]]
    unfolding body_def by auto
  show "arc (h + 56 + load64 m (h + 8)) (pad_len (h + 56 + load64 m (h + 8)) + 16) \<subseteq> body m h"
    using tail_in_foot [OF sz, of h] sep_arcs [OF tail_sep_links [OF sz, of h]]
    unfolding body_def blk_def by auto
qed

lemma rec_frame:
  assumes sz: "unat (load64 m (h + 8)) + 80 \<le> 2 ^ 64"
    and eq: "\<And>x. x \<in> body m h \<Longrightarrow> m' x = m x"
  shows "load64 m' h = load64 m h" "load64 m' (h + 8) = load64 m (h + 8)"
    "intact m' h = intact m h" "blk m' h = blk m h"
proof -
  note cb = cells_in_body [OF sz]
  show a: "load64 m' h = load64 m h" using cb(1) eq by (intro load64_cong) auto
  show s: "load64 m' (h + 8) = load64 m (h + 8)" using cb(2) eq by (intro load64_cong) auto
  have g1: "load64 m' (h + 40) = load64 m (h + 40)" using cb(3) eq by (intro load64_cong) auto
  have g2: "load64 m' (h + 48) = load64 m (h + 48)" using cb(4) eq by (intro load64_cong) auto
  define sz where "sz = load64 m (h + 8)"
  define p where "p = pad_len (h + 56 + sz)"
  note ta = tail_arcs [of h sz, folded p_def]
  note tb = cb(5) [folded sz_def, folded p_def]
  have c1: "load64 m' (h + 56 + (sz + of_nat p)) = load64 m (h + 56 + (sz + of_nat p))"
    using ta(1) tb eq by (intro load64_cong) auto
  have c2: "load64 m' (h + 56 + (sz + of_nat p) + 8) = load64 m (h + 56 + (sz + of_nat p) + 8)"
    using ta(2) tb eq by (intro load64_cong) auto
  have pb: "\<And>y. y \<in> arc (h + 56 + sz) p \<Longrightarrow> m' y = m y"
    using ta(3) tb eq by auto
  show "intact m' h = intact m h"
    unfolding intact_def Let_def s g1 g2 sz_def [symmetric] p_def [symmetric] c1 c2
    using pb by auto
  show "blk m' h = blk m h" by (simp add: blk_def s)
qed

lemma chain_cong:
  "load64 m' cell = load64 m cell \<Longrightarrow>
   (\<And>x. x \<in> set xs \<Longrightarrow> load64 m' (x + 24) = load64 m (x + 24) \<and> load64 m' (x + 32) = load64 m (x + 32))
   \<Longrightarrow> chain m' cell xs = chain m cell xs"
  by (induction xs arbitrary: cell) auto

lemma seps_cong:
  "(\<And>x. x \<in> set xs \<Longrightarrow> load64 m' (x + 8) = load64 m (x + 8)) \<Longrightarrow> seps m' xs = seps m xs"
  by (induction xs) (auto simp: blk_def)

lemma seps_mem:
  "seps m xs \<Longrightarrow> h \<in> set xs \<Longrightarrow>
     unat (load64 m (h + 8)) + 80 \<le> 2 ^ 64 \<and> unat h + blk m h \<le> 2 ^ 64 \<and> sep h (blk m h) gp_listHead 8"
  by (induction xs) auto

lemma seps_pair:
  "seps m xs \<Longrightarrow> h \<in> set xs \<Longrightarrow> x \<in> set xs \<Longrightarrow> h \<noteq> x \<Longrightarrow> sep h (blk m h) x (blk m x)"
  by (induction xs) (auto intro: sep_sym)

lemma blk_ge: "72 \<le> blk m h"
  by (simp add: blk_def foot_def)

lemma sep_irrefl: "sep a n a k \<Longrightarrow> n = 0 \<and> k = 0"
  by (simp add: sep_def)

lemma seps_distinct: "seps m xs \<Longrightarrow> distinct xs"
proof (induction xs)
  case Nil then show ?case by simp
next
  case (Cons h hs)
  have "h \<notin> set hs"
  proof
    assume "h \<in> set hs"
    with Cons.prems have "sep h (blk m h) h (blk m h)" by simp
    then show False using blk_ge [of m h] by (auto dest: sep_irrefl)
  qed
  with Cons show ?case by simp
qed

text \<open>Cells of one record lie inside its block.\<close>

lemma links_in_blk:
  assumes "72 \<le> L" and "L \<le> 2 ^ 64"
  shows "arc (h + 24) 8 \<subseteq> arc h L" "arc (h + 32) 8 \<subseteq> arc h L" "arc (h + 24) 16 \<subseteq> arc h L"
proof -
  have "arc (h + of_nat 24) 8 \<subseteq> arc h L" "arc (h + of_nat 32) 8 \<subseteq> arc h L"
    "arc (h + of_nat 24) 16 \<subseteq> arc h L"
    using assms by (intro arc_sub; simp)+
  then show "arc (h + 24) 8 \<subseteq> arc h L" "arc (h + 32) 8 \<subseteq> arc h L" "arc (h + 24) 16 \<subseteq> arc h L"
    by simp_all
qed

lemma links_sub16: "arc (h + 24) 8 \<subseteq> arc (h + 24) 16" "arc (h + 32) 8 \<subseteq> arc (h + 24) 16"
proof -
  show "arc (h + 24) 8 \<subseteq> arc (h + 24) 16" by (auto simp: arc_def)
  have "arc (h + 24 + of_nat 8) 8 \<subseteq> arc (h + 24) 16" by (intro arc_sub) simp_all
  then show "arc (h + 32) 8 \<subseteq> arc (h + 24) 16" by (simp add: add.assoc)
qed

lemma blk_le: "unat h + blk m h \<le> 2 ^ 64 \<Longrightarrow> blk m h \<le> 2 ^ 64"
  by simp

lemma sep_cell32:
  assumes s: "sep a n x L" and L: "72 \<le> L"
  shows "sep a n (x + 32) 8"
proof -
  have "sep (x + of_nat 32) 8 a n" by (rule sep_sub [OF sep_sym [OF s]]) (use L in simp_all)
  then show ?thesis by (simp add: sep_sym)
qed

lemma chain_first: "chain m cell xs \<Longrightarrow> load64 m cell = (case xs of [] \<Rightarrow> 0 | x # _ \<Rightarrow> x)"
  by (cases xs) auto

lemma registry_insert:
  fixes m xs r sz c tid
  defines "M \<equiv> build_record m r c sz tid"
  assumes reg: "registry m xs" and fr: "fresh m xs r sz"
  shows "registry M (r # xs)"
    and "load64 M r = c" and "load64 M (r + 8) = sz" and "intact M r"
    and "\<And>x. x \<in> set xs \<Longrightarrow> load64 M x = load64 m x \<and> load64 M (x + 8) = load64 m (x + 8)
           \<and> intact M x = intact m x"
proof -
  define first where "first = load64 m gp_listHead"
  from reg have ch: "chain m gp_listHead xs" and sp: "seps m xs" by (simp_all add: registry_def)
  from fr have r0: "r \<noteq> 0" and sz: "unat sz + 80 \<le> 2 ^ 64" and nw: "unat r + foot r sz \<le> 2 ^ 64"
    and hd: "sep r (foot r sz) gp_listHead 8"
    and fx: "\<And>x. x \<in> set xs \<Longrightarrow> sep r (foot r sz) x (blk m x)"
    by (simp_all add: fresh_def)
  have fxs: "first \<noteq> 0 \<Longrightarrow> first \<in> set xs \<and> xs = first # tl xs"
    using chain_first [OF ch] unfolding first_def by (cases xs) auto
  have fs: "first \<noteq> 0 \<Longrightarrow> sep r (foot r sz) (first + 32) 8"
    using fxs fx blk_ge by (blast intro: sep_cell32)
  have fh: "first \<noteq> 0 \<Longrightarrow> sep (first + 32) 8 gp_listHead 8"
    using fxs seps_mem [OF sp] blk_ge sep_cell32 [OF sep_sym] by (blast intro: sep_sym)
  note bp = build_record_props [OF sz hd fs [unfolded first_def] fh [unfolded first_def],
      where c = c and tid = tid, folded M_def first_def]
  define S where "S = arc r (foot r sz) \<union> arc gp_listHead 8 \<union> (if first \<noteq> 0 then arc (first + 32) 8 else {})"
  note oi = bp(8) [folded S_def]
  show "load64 M r = c" by (rule bp(1))
  show "load64 M (r + 8) = sz" by (rule bp(2))
  show "intact M r" by (rule bp(7))
  have blkx: "\<And>x. x \<in> set xs \<Longrightarrow> arc x (blk m x) \<inter> (arc r (foot r sz) \<union> arc gp_listHead 8) = {}"
    using sep_arcs [OF fx] sep_arcs [OF conjunct2 [OF conjunct2 [OF seps_mem [OF sp]]]] by blast
  have Fx: "\<And>x. x \<in> set xs \<Longrightarrow> first \<noteq> 0 \<Longrightarrow> x \<noteq> first \<Longrightarrow> arc x (blk m x) \<inter> arc (first + 32) 8 = {}"
  proof -
    fix x assume x: "x \<in> set xs" and f: "first \<noteq> 0" and ne: "x \<noteq> first"
    from fxs [OF f] have fin: "first \<in> set xs" by simp
    have "sep x (blk m x) first (blk m first)" by (rule seps_pair [OF sp x fin ne])
    then have "sep x (blk m x) (first + 32) 8" using blk_ge by (rule sep_cell32)
    then show "arc x (blk m x) \<inter> arc (first + 32) 8 = {}" by (rule sep_arcs)
  qed
  have bodyx: "\<And>x y. x \<in> set xs \<Longrightarrow> y \<in> body m x \<Longrightarrow> M y = m y"
  proof -
    fix x y assume x: "x \<in> set xs" and y: "y \<in> body m x"
    have "y \<notin> S"
    proof (cases "first \<noteq> 0 \<and> x = first")
      case True
      then show ?thesis using y blkx [OF x] links_sub16(2) [of first]
        unfolding S_def body_def by auto
    next
      case False
      then show ?thesis using y blkx [OF x] Fx [OF x]
        unfolding S_def body_def by auto
    qed
    with oi show "M y = m y" by (rule only_in_frame)
  qed
  show old: "\<And>x. x \<in> set xs \<Longrightarrow> load64 M x = load64 m x \<and> load64 M (x + 8) = load64 m (x + 8)
           \<and> intact M x = intact m x"
    using rec_frame [OF conjunct1 [OF seps_mem [OF sp]] bodyx] by simp
  have lnk: "\<And>x. x \<in> set xs \<Longrightarrow> arc (x + 24) 16 \<subseteq> arc x (blk m x)"
  proof -
    fix x assume "x \<in> set xs"
    from seps_mem [OF sp this] have "blk m x \<le> 2 ^ 64" by linarith
    with blk_ge show "arc (x + 24) 16 \<subseteq> arc x (blk m x)" by (rule links_in_blk(3))
  qed
  have nxt: "\<And>x. x \<in> set xs \<Longrightarrow> load64 M (x + 24) = load64 m (x + 24)"
  proof -
    fix x assume x: "x \<in> set xs"
    have "S \<inter> arc (x + 24) 8 = {}"
    proof (cases "first \<noteq> 0 \<and> x = first")
      case True
      have "sep (first + 32) 8 (first + 24) 8" by simp
      from sep_arcs [OF this] True show ?thesis
        using blkx [OF x] lnk [OF x] links_sub16(1) [of x] unfolding S_def by auto
    next
      case False
      then show ?thesis using blkx [OF x] Fx [OF x] lnk [OF x] links_sub16(1) [of x]
        unfolding S_def by auto
    qed
    with oi show "load64 M (x + 24) = load64 m (x + 24)" by (rule load64_only_in)
  qed
  have prv: "\<And>x. x \<in> set xs \<Longrightarrow> x \<noteq> first \<Longrightarrow> load64 M (x + 32) = load64 m (x + 32)"
  proof -
    fix x assume x: "x \<in> set xs" and ne: "x \<noteq> first"
    have "S \<inter> arc (x + 32) 8 = {}"
      using ne blkx [OF x] Fx [OF x] lnk [OF x] links_sub16(2) [of x] unfolding S_def by auto
    with oi show "load64 M (x + 32) = load64 m (x + 32)" by (rule load64_only_in)
  qed
  have chM: "chain M (r + 24) xs"
  proof (cases xs)
    case Nil
    with chain_first [OF ch] bp(3) show ?thesis by (simp add: first_def)
  next
    case (Cons x0 rest)
    with ch have f: "first = x0" "x0 \<noteq> 0" and crest: "chain m (x0 + 24) rest"
      by (simp_all add: first_def)
    from sp Cons have "distinct (x0 # rest)" using seps_distinct by blast
    then have nin: "\<And>x. x \<in> set rest \<Longrightarrow> x \<noteq> first" using f by auto
    have "chain M (x0 + 24) rest = chain m (x0 + 24) rest"
      using nxt prv nin Cons by (intro chain_cong) auto
    with crest bp(3) bp(6) f show ?thesis using Cons by simp
  qed
  have spM: "seps M xs = seps m xs" using old by (intro seps_cong) simp
  have blkM: "\<And>x. x \<in> set xs \<Longrightarrow> blk M x = blk m x" using old by (simp add: blk_def)
  have "seps M (r # xs)"
    using sp spM sz nw hd fx blkM bp(2) by (simp add: blk_def)
  with chM bp(4) bp(5) r0 show "registry M (r # xs)" by (simp add: registry_def)
qed

lemma verify_intact56: "intact m h \<Longrightarrow> verifyIntegrity m (h + sizeof_memoryHeader) = Inr h"
  by (simp add: sizeof_memoryHeader_def verify_intact)

lemma usage_loop_chain:
  "chain m cell xs \<Longrightarrow> (\<And>x. x \<in> set xs \<Longrightarrow> intact m x) \<Longrightarrow>
   usage_loop m (load64 m cell) acc =
     Some (Inr (acc + sum_list (map (\<lambda>x. if load64 m x \<noteq> 0 then load64 m (x + 8) else 0) xs)))"
proof (induction xs arbitrary: cell acc)
  case Nil
  then show ?case by (subst usage_loop.simps) simp
next
  case (Cons x xs)
  from Cons.prems have c: "load64 m cell = x" "x \<noteq> 0" "chain m (x + 24) xs" and i: "intact m x"
    by simp_all
  have ih: "\<And>acc. usage_loop m (load64 m (x + 24)) acc =
     Some (Inr (acc + sum_list (map (\<lambda>x. if load64 m x \<noteq> 0 then load64 m (x + 8) else 0) xs)))"
    using Cons.IH [OF c(3)] Cons.prems(2) by simp
  show ?case unfolding c(1)
    by (subst usage_loop.simps) (simp add: c(2) verify_intact56 [OF i] ih add.assoc)
qed

lemma real_usage_loop_chain:
  "chain m cell xs \<Longrightarrow> (\<And>x. x \<in> set xs \<Longrightarrow> intact m x) \<Longrightarrow>
   real_usage_loop m (load64 m cell) acc =
     Some (Inr (acc + sum_list (map (\<lambda>x. load64 m (x + 8) + sizeof_memoryHeader + sizeof_memoryCap) xs)))"
proof (induction xs arbitrary: cell acc)
  case Nil
  then show ?case by (subst real_usage_loop.simps) simp
next
  case (Cons x xs)
  from Cons.prems have c: "load64 m cell = x" "x \<noteq> 0" "chain m (x + 24) xs" and i: "intact m x"
    by simp_all
  have ih: "\<And>acc. real_usage_loop m (load64 m (x + 24)) acc =
     Some (Inr (acc + sum_list (map (\<lambda>x. load64 m (x + 8) + sizeof_memoryHeader + sizeof_memoryCap) xs)))"
    using Cons.IH [OF c(3)] Cons.prems(2) by simp
  show ?case unfolding c(1)
    by (subst real_usage_loop.simps) (simp add: c(2) verify_intact56 [OF i] ih add.assoc)
qed




lemma tracked_intact: "tracked st xs \<Longrightarrow> x \<in> set xs \<Longrightarrow> intact (mem st) x"
  by (simp add: tracked_def verify_iff)

lemma malloc_success:
  assumes "gp_orgMalloc st" "gp_orgRealloc st" "r \<noteq> 0"
  shows "malloc st sz r =
     Inr (r + 56,
          st\<lparr>mem := build_record (mem st) r (if gi_hookDisabled st then 0 else szEmpty) sz (thread_self st),
             gi_allocCount := (if gi_hookDisabled st then gi_allocCount st else gi_allocCount st + 1),
             heap_blocks := (heap_blocks st)(0 := None, r \<mapsto> adjust_size sz 1)\<rparr>)"
  using assms
  by (simp add: malloc_def internalRealloc_def org_realloc_def count_allocation_def trace_def
      Let_def sizeof_memoryHeader_def)

lemma malloc_tracked:
  assumes t: "tracked st xs" and f: "fresh (mem st) xs r sz"
  shows "\<exists>st'. malloc st sz r = Inr (r + 56, st') \<and> tracked st' (r # xs)
     \<and> gi_hookDisabled st' = gi_hookDisabled st
     \<and> gi_allocCount st' = (if gi_hookDisabled st then gi_allocCount st else gi_allocCount st + 1)
     \<and> load64 (mem st') r = (if gi_hookDisabled st then 0 else szEmpty)
     \<and> load64 (mem st') (r + 8) = sz
     \<and> (\<forall>x \<in> set xs. load64 (mem st') x = load64 (mem st) x
           \<and> load64 (mem st') (x + 8) = load64 (mem st) (x + 8))"
proof -
  from t have g: "gp_orgMalloc st" "gp_orgRealloc st" "gp_orgFree st" and reg: "registry (mem st) xs"
    by (simp_all add: tracked_def)
  from f have r0: "r \<noteq> 0" by (simp add: fresh_def)
  note ri = registry_insert [OF reg f, where c = "if gi_hookDisabled st then 0 else szEmpty"
      and tid = "thread_self st"]
  show ?thesis
    unfolding malloc_success [OF g(1) g(2) r0]
    using ri g tracked_intact [OF t]
    by (auto simp add: tracked_def verify_iff)
qed

lemma init_tracked:
  assumes f: "fresh (store64 (mem st) gp_listHead 0) [] r 0" and h: "\<not> gi_hookDisabled st"
  shows "\<exists>st'. init st r = Inr st' \<and> tracked st' [r] \<and> \<not> gi_hookDisabled st'
     \<and> gi_allocCount st' = gi_allocCount st + 1
     \<and> load64 (mem st') r = szEmpty \<and> load64 (mem st') (r + 8) = 0"
proof -
  define st2 where "st2 = st\<lparr>gp_orgMalloc := True, gp_orgFree := True, gp_orgRealloc := True,
     mem := LIST_INIT (mem st) gp_listHead\<rparr>"
  have "registry (mem st2) []"
    by (simp add: st2_def registry_def LIST_INIT_def load64_store64_same)
  then have t: "tracked st2 []" by (simp add: tracked_def st2_def)
  have f2: "fresh (mem st2) [] r 0" using f by (simp add: st2_def LIST_INIT_def)
  from malloc_tracked [OF t f2] h show ?thesis
    by (auto simp add: init_def Let_def st2_def)
qed

lemma fresh_ready: "fresh (store64 (mem fresh_state) gp_listHead 0) [] 0x1000 0"
  by (simp add: fresh_def foot_def pad_len_def sep_def gp_listHead_def)

lemma ready_tracked:
  "tracked ready_state [0x1000] \<and> \<not> gi_hookDisabled ready_state \<and> gi_allocCount ready_state = 1
   \<and> load64 (mem ready_state) 0x1000 = szEmpty \<and> load64 (mem ready_state) 0x1008 = 0"
proof -
  have h: "\<not> gi_hookDisabled fresh_state" "gi_allocCount fresh_state = 0"
    by (simp_all add: fresh_state_def)
  from init_tracked [OF fresh_ready h(1)] h(2) show ?thesis
    by (auto simp add: ready_state_def)
qed

lemma internalRealloc_new:
  assumes "gp_orgRealloc st" "r \<noteq> 0"
  shows "internalRealloc st 0 sz nmemb type r =
     Inr (r + 56,
          st\<lparr>mem := build_record (mem st) r (if gi_hookDisabled st then 0 else szEmpty) (sz * nmemb)
                    (thread_self st),
             gi_allocCount := (if gi_hookDisabled st then gi_allocCount st else gi_allocCount st + 1),
             heap_blocks := (heap_blocks st)(0 := None, r \<mapsto> adjust_size sz nmemb)\<rparr>)"
  using assms
  by (cases type)
     (simp_all add: internalRealloc_def org_realloc_def count_allocation_def trace_def
      Let_def sizeof_memoryHeader_def)

lemma usage_tracked:
  "tracked st xs \<Longrightarrow> mem_get_usage st = Some (Inr (usage_sum (mem st) xs))"
  unfolding mem_get_usage_def usage_sum_def
  using usage_loop_chain [of "mem st" gp_listHead xs 0] tracked_intact [of st xs]
  by (simp add: tracked_def registry_def)

lemma real_usage_tracked:
  "tracked st xs \<Longrightarrow> mem_get_real_usage st = Some (Inr (real_usage_sum (mem st) xs))"
  unfolding mem_get_real_usage_def real_usage_sum_def
  using real_usage_loop_chain [of "mem st" gp_listHead xs 0] tracked_intact [of st xs]
  by (simp add: tracked_def registry_def)



lemma alloc_tracked:
  assumes t: "tracked st xs" and f: "fresh (mem st) xs r (sz * nmemb)"
  shows "\<exists>st'. internalRealloc st 0 sz nmemb type r = Inr (r + 56, st') \<and> tracked st' (r # xs)
     \<and> gi_hookDisabled st' = gi_hookDisabled st
     \<and> gi_allocCount st' = (if gi_hookDisabled st then gi_allocCount st else gi_allocCount st + 1)
     \<and> load64 (mem st') r = (if gi_hookDisabled st then 0 else szEmpty)
     \<and> load64 (mem st') (r + 8) = sz * nmemb
     \<and> usage_sum (mem st') xs = usage_sum (mem st) xs
     \<and> real_usage_sum (mem st') xs = real_usage_sum (mem st) xs"
proof -
  from t have g: "gp_orgMalloc st" "gp_orgRealloc st" "gp_orgFree st" and reg: "registry (mem st) xs"
    by (simp_all add: tracked_def)
  from f have r0: "r \<noteq> 0" by (simp add: fresh_def)
  note ri = registry_insert [OF reg f, where c = "if gi_hookDisabled st then 0 else szEmpty"
      and tid = "thread_self st"]
  have "usage_sum (build_record (mem st) r (if gi_hookDisabled st then 0 else szEmpty) (sz * nmemb)
       (thread_self st)) xs = usage_sum (mem st) xs"
    unfolding usage_sum_def using ri(5) by (intro arg_cong [where f = sum_list] map_cong) auto
  moreover have "real_usage_sum (build_record (mem st) r (if gi_hookDisabled st then 0 else szEmpty)
       (sz * nmemb) (thread_self st)) xs = real_usage_sum (mem st) xs"
    unfolding real_usage_sum_def using ri(5) by (intro arg_cong [where f = sum_list] map_cong) auto
  ultimately show ?thesis
    unfolding internalRealloc_new [OF g(2) r0]
    using ri g tracked_intact [OF t]
    by (auto simp add: tracked_def verify_iff)
qed

lemma malloc_alloc: "gp_orgMalloc st \<Longrightarrow> malloc st sz r = internalRealloc st 0 sz 1 MALLOC r"
  by (simp add: malloc_def)

lemma usage_sum_Cons:
  "usage_sum m (x # xs) = (if load64 m x \<noteq> 0 then load64 m (x + 8) else 0) + usage_sum m xs"
  by (simp add: usage_sum_def)

lemma real_usage_sum_Cons:
  "real_usage_sum m (x # xs) = load64 m (x + 8) + 72 + real_usage_sum m xs"
  by (simp add: real_usage_sum_def sizeof_memoryHeader_def sizeof_memoryCap_def add.assoc)

lemma szEmpty_nonzero: "szEmpty \<noteq> 0"
  by (simp add: szEmpty_def)

lemma mallocs_tracked:
  "tracked st xs \<Longrightarrow> \<not> gi_hookDisabled st \<Longrightarrow> fresh_all st xs reqs \<Longrightarrow>
   \<exists>st'. mallocs st reqs = Inr st' \<and> tracked st' (rev (map snd reqs) @ xs)
     \<and> gi_allocCount st' = gi_allocCount st + of_nat (length reqs)
     \<and> usage_sum (mem st') (rev (map snd reqs) @ xs) = usage_sum (mem st) xs + sum_list (map fst reqs)
     \<and> real_usage_sum (mem st') (rev (map snd reqs) @ xs) =
         real_usage_sum (mem st) xs + sum_list (map fst reqs) + 72 * of_nat (length reqs)"
proof (induction reqs arbitrary: st xs)
  case Nil
  then show ?case by simp
next
  case (Cons q reqs)
  obtain sz r where q: "q = (sz, r)" by (cases q)
  from Cons.prems(3) have f: "fresh (mem st) xs r (sz * 1)" by (simp add: q)
  from Cons.prems(1) have gm: "gp_orgMalloc st" by (simp add: tracked_def)
  from alloc_tracked [OF Cons.prems(1) f, of MALLOC] obtain st1 where
    m: "malloc st sz r = Inr (r + 56, st1)" and t1: "tracked st1 (r # xs)"
    and h1: "gi_hookDisabled st1 = gi_hookDisabled st"
    and c1: "gi_allocCount st1 = gi_allocCount st + 1"
    and a1: "load64 (mem st1) r = szEmpty" and s1: "load64 (mem st1) (r + 8) = sz"
    and u1: "usage_sum (mem st1) xs = usage_sum (mem st) xs"
    and ru1: "real_usage_sum (mem st1) xs = real_usage_sum (mem st) xs"
    using Cons.prems(2) by (auto simp add: malloc_alloc [OF gm])
  from Cons.prems(3) m have fa: "fresh_all st1 (r # xs) reqs" by (simp add: q)
  from Cons.IH [OF t1 _ fa] h1 Cons.prems(2) obtain st' where
    r: "mallocs st1 reqs = Inr st'" "tracked st' (rev (map snd reqs) @ r # xs)"
      "gi_allocCount st' = gi_allocCount st1 + of_nat (length reqs)"
      "usage_sum (mem st') (rev (map snd reqs) @ r # xs) = usage_sum (mem st1) (r # xs) + sum_list (map fst reqs)"
      "real_usage_sum (mem st') (rev (map snd reqs) @ r # xs) =
         real_usage_sum (mem st1) (r # xs) + sum_list (map fst reqs) + 72 * of_nat (length reqs)"
    by auto
  show ?case
    using m r c1 a1 s1 u1 ru1 szEmpty_nonzero
    by (simp add: q usage_sum_Cons real_usage_sum_Cons algebra_simps)
qed

lemma sint_add_nat:
  "sint (c :: 32 word) + int n < 2 ^ 31 \<Longrightarrow> sint (c + of_nat n) = sint c + int n"
proof -
  assume b: "sint c + int n < 2 ^ 31"
  have lo: "- (2 ^ 31) \<le> sint c" using sint_ge [of c] by simp
  have e: "c + of_nat n = word_of_int (sint c + int n)" by simp
  have "sint (c + of_nat n) = signed_take_bit 31 (sint c + int n)"
    unfolding e by (simp only: sint_sbintrunc') simp
  also have "\<dots> = sint c + int n"
    using b lo by (intro signed_take_bit_int_eq_self) simp_all
  finally show ?thesis .
qed

lemma load64_store64_disj: "arc a 8 \<inter> arc b 8 = {} \<Longrightarrow> load64 (store64 m a v) b = load64 m b"
  by (rule load64_only_in [OF only_in_store64])

lemma links_disj: "arc (h + 24) 8 \<inter> arc (h + 32) 8 = {}" "arc (h + 32) 8 \<inter> arc (h + 24) 8 = {}"
proof -
  have "sep (h + 24) 8 (h + 32) 8" by simp
  from sep_arcs [OF this] show "arc (h + 24) 8 \<inter> arc (h + 32) 8 = {}"
    "arc (h + 32) 8 \<inter> arc (h + 24) 8 = {}" by auto
qed

lemma nowrap_cell: "unat (h :: 64 word) + L \<le> 2 ^ 64 \<Longrightarrow> 72 \<le> L \<Longrightarrow> h + 24 \<noteq> 0"
proof
  assume a: "unat h + L \<le> 2 ^ 64" "72 \<le> L" and z: "h + 24 = 0"
  have "unat (h + 24) = unat h + 24"
    using a unat_plus_if' [of h 24] by simp
  with z show False by simp
qed

lemma chain_detach:
  assumes ch: "chain m cell xs" and hin: "h \<in> set xs" and c0: "cell \<noteq> 0"
    and nw: "\<And>x. x \<in> set xs \<Longrightarrow> unat x + blk m x \<le> 2 ^ 64"
    and pw: "\<And>x y. x \<in> set xs \<Longrightarrow> y \<in> set xs \<Longrightarrow> x \<noteq> y \<Longrightarrow> sep x (blk m x) y (blk m y)"
    and cs: "\<And>x. x \<in> set xs \<Longrightarrow> sep x (blk m x) cell 8"
    and di: "distinct xs"
  shows "chain (detach m h) cell (remove1 h xs) \<and> only_in (link_cells cell xs) m (detach m h)
     \<and> load64 (detach m h) (h + 32) = 0 \<and> load64 (detach m h) (h + 24) = load64 m (h + 24)"
  using ch hin c0 nw pw cs di
proof (induction xs arbitrary: cell)
  case Nil
  then show ?case by simp
next
  case (Cons x0 rest)
  from Cons.prems(1) have c: "load64 m cell = x0" "x0 \<noteq> 0" "load64 m (x0 + 32) = cell"
    "chain m (x0 + 24) rest" by simp_all
  have blkin: "\<And>x. x \<in> set (x0 # rest) \<Longrightarrow> arc (x + 24) 16 \<subseteq> arc x (blk m x)"
  proof -
    fix x assume "x \<in> set (x0 # rest)"
    from Cons.prems(4) [OF this] have "blk m x \<le> 2 ^ 64" by linarith
    with blk_ge show "arc (x + 24) 16 \<subseteq> arc x (blk m x)" by (rule links_in_blk(3))
  qed
  have bd: "\<And>x y. x \<in> set (x0 # rest) \<Longrightarrow> y \<in> set (x0 # rest) \<Longrightarrow> x \<noteq> y \<Longrightarrow>
      arc (x + 24) 16 \<inter> arc (y + 24) 16 = {}"
    using sep_arcs [OF Cons.prems(5)] blkin by blast
  have cd: "\<And>x. x \<in> set (x0 # rest) \<Longrightarrow> arc (x + 24) 16 \<inter> arc cell 8 = {}"
    using sep_arcs [OF Cons.prems(6)] blkin by blast
  note s16 = links_sub16
  show ?case
  proof (cases "h = x0")
    case True
    define nxt where "nxt = load64 m (h + 24)"
    have c3h: "load64 m (h + 32) = cell" using c(3) True by simp
    have lp: "load64 m (h + 32) \<noteq> 0" using c3h Cons.prems(3) by simp
    have nx: "nxt \<noteq> 0 \<Longrightarrow> nxt \<in> set rest \<and> rest = nxt # tl rest"
      using chain_first [OF c(4)] True unfolding nxt_def by (cases rest) auto
    have nh: "nxt \<noteq> 0 \<Longrightarrow> nxt \<noteq> h" using nx Cons.prems(7) True by auto
    define m1 where "m1 = (if nxt \<noteq> 0 then store64 m (nxt + 32) cell else m)"
    have d1: "nxt \<noteq> 0 \<Longrightarrow> arc (nxt + 32) 8 \<inter> arc (h + 32) 8 = {}"
      "nxt \<noteq> 0 \<Longrightarrow> arc (nxt + 32) 8 \<inter> arc (h + 24) 8 = {}"
      "nxt \<noteq> 0 \<Longrightarrow> arc (nxt + 32) 8 \<inter> arc cell 8 = {}"
      using bd [of nxt h] cd [of nxt] nx nh True s16 [of nxt] s16 [of h] by auto
    have l1: "load64 m1 (h + 32) = cell" "load64 m1 (h + 24) = nxt"
      unfolding m1_def using d1 c3h nxt_def by (simp_all add: load64_store64_disj)
    have det: "detach m h = store64 (store64 m1 cell nxt) (h + 32) 0"
    proof (cases "nxt = 0")
      case True
      then show ?thesis
        using lp c3h unfolding detach_def LIST_REMOVE_def Let_def m1_def nxt_def by simp
    next
      case False
      then have e: "m1 = store64 m (load64 m (h + 24) + 32) cell" by (simp add: m1_def nxt_def)
      from l1 False lp c3h show ?thesis
        unfolding detach_def LIST_REMOVE_def Let_def nxt_def e by simp
    qed
    have d2: "arc (h + 32) 8 \<inter> arc cell 8 = {}" "arc cell 8 \<inter> arc (h + 32) 8 = {}"
      using cd [of h] True s16 [of h] by auto
    have oi: "only_in (link_cells cell (x0 # rest)) m (detach m h)"
    proof -
      have "only_in (arc (nxt + 32) 8) m m1 \<or> m1 = m"
        unfolding m1_def using only_in_store64 by simp
      then have a: "only_in (if nxt \<noteq> 0 then arc (nxt + 32) 8 else {}) m m1"
        unfolding m1_def by (auto simp: only_in_store64 only_in_refl)
      have "only_in ((if nxt \<noteq> 0 then arc (nxt + 32) 8 else {}) \<union> arc cell 8 \<union> arc (h + 32) 8) m (detach m h)"
        unfolding det by (rule only_in_trans [OF only_in_trans [OF a only_in_store64] only_in_store64])
      then show ?thesis
        by (rule only_in_mono) (use nx True s16 [of nxt] s16 [of h] in \<open>auto simp: link_cells_def\<close>)
    qed
    have z: "load64 (detach m h) (h + 32) = 0" unfolding det by (simp add: load64_store64_same)
    have d3: "arc cell 8 \<inter> arc (h + 24) 8 = {}"
      using cd [of h] True s16 [of h] by auto
    have z2: "load64 (detach m h) (h + 24) = load64 m (h + 24)"
      unfolding det using d3 links_disj(2) [of h] l1(2) nxt_def
      by (simp add: load64_store64_disj)
    have hc: "load64 (detach m h) cell = nxt"
      unfolding det using d2 by (simp add: load64_store64_disj load64_store64_same)
    have "chain (detach m h) cell rest"
    proof (cases rest)
      case Nil
      with chain_first [OF c(4)] True have "nxt = 0" by (simp add: nxt_def)
      with hc Nil show ?thesis by simp
    next
      case (Cons n rest')
      with c(4) True have n: "nxt = n" "n \<noteq> 0" and cr: "chain m (n + 24) rest'"
        by (simp_all add: nxt_def)
      have nin: "n \<in> set (x0 # rest)" using Cons by simp
      have dn: "arc (n + 32) 8 \<inter> arc (n + 24) 8 = {}" by (rule links_disj)
      have wn: "arc cell 8 \<inter> arc (n + 32) 8 = {}" "arc (h + 32) 8 \<inter> arc (n + 32) 8 = {}"
        "arc cell 8 \<inter> arc (n + 24) 8 = {}" "arc (h + 32) 8 \<inter> arc (n + 24) 8 = {}"
        using cd [OF nin] bd [of n h] nin nh n True s16 [of n] s16 [of h] by auto
      have p1: "load64 (detach m h) (n + 32) = cell"
        unfolding det m1_def using n wn by (simp add: load64_store64_disj load64_store64_same)
      have p2: "load64 (detach m h) (n + 24) = load64 m (n + 24)"
        unfolding det m1_def using n wn dn by (simp add: load64_store64_disj)
      have rest_same: "\<And>y. y \<in> set rest' \<Longrightarrow>
          load64 (detach m h) (y + 24) = load64 m (y + 24) \<and> load64 (detach m h) (y + 32) = load64 m (y + 32)"
      proof -
        fix y assume y: "y \<in> set rest'"
        then have yin: "y \<in> set (x0 # rest)" using Cons by simp
        have yn: "y \<noteq> n" "y \<noteq> h" using y Cons True \<open>distinct (x0 # rest)\<close> by auto
        have "link_cells cell [h, n] \<inter> arc (y + 24) 16 = {}"
          using bd [OF yin] cd [OF yin] yn nin True by (auto simp: link_cells_def)
        moreover have "only_in (link_cells cell [h, n]) m (detach m h)"
        proof -
          have a: "only_in (arc (n + 32) 8) m m1" unfolding m1_def using n only_in_store64 by simp
          have "only_in (arc (n + 32) 8 \<union> arc cell 8 \<union> arc (h + 32) 8) m (detach m h)"
            unfolding det by (rule only_in_trans [OF only_in_trans [OF a only_in_store64] only_in_store64])
          then show ?thesis
            by (rule only_in_mono) (use s16 [of n] s16 [of h] in \<open>auto simp: link_cells_def\<close>)
        qed
        ultimately show "load64 (detach m h) (y + 24) = load64 m (y + 24)
            \<and> load64 (detach m h) (y + 32) = load64 m (y + 32)"
          using s16 [of y] by (intro conjI load64_only_in [of "link_cells cell [h, n]"]) auto
      qed
      have "chain (detach m h) (n + 24) rest' = chain m (n + 24) rest'"
        using p2 rest_same by (intro chain_cong) auto
      with cr hc p1 n Cons show ?thesis by simp
    qed
    with oi z z2 True show ?thesis by simp
  next
    case False
    with Cons.prems(2) have hr: "h \<in> set rest" by simp
    have x0in: "x0 \<in> set (x0 # rest)" by simp
    have c24: "x0 + 24 \<noteq> 0" using nowrap_cell [OF Cons.prems(4) [OF x0in] blk_ge] .
    have cs': "\<And>x. x \<in> set rest \<Longrightarrow> sep x (blk m x) (x0 + 24) 8"
    proof -
      fix x assume x: "x \<in> set rest"
      then have ne: "x \<noteq> x0" using Cons.prems(7) by auto
      have "sep x0 (blk m x0) x (blk m x)" using Cons.prems(5) [of x0 x] x ne by simp
      moreover have "24 + 8 \<le> blk m x0" "24 < blk m x0" using blk_ge [of m x0] by linarith+
      ultimately have "sep (x0 + of_nat 24) 8 x (blk m x)" by (rule sep_sub)
      then show "sep x (blk m x) (x0 + 24) 8" by (simp add: sep_sym)
    qed
    from Cons.IH [OF c(4) hr c24 _ _ cs'] Cons.prems(4) Cons.prems(5) Cons.prems(7)
    have ih: "chain (detach m h) (x0 + 24) (remove1 h rest)"
      "only_in (link_cells (x0 + 24) rest) m (detach m h)" "load64 (detach m h) (h + 32) = 0"
      "load64 (detach m h) (h + 24) = load64 m (h + 24)"
      by auto
    have sub: "link_cells (x0 + 24) rest \<subseteq> link_cells cell (x0 # rest)"
      using s16 [of x0] by (auto simp: link_cells_def)
    have dc: "link_cells (x0 + 24) rest \<inter> arc cell 8 = {}"
      using cd s16 [of x0] by (auto simp: link_cells_def)
    have dp: "link_cells (x0 + 24) rest \<inter> arc (x0 + 32) 8 = {}"
    proof -
      have a: "arc (x0 + 24) 8 \<inter> arc (x0 + 32) 8 = {}" by (rule links_disj)
      have b: "\<And>y. y \<in> set rest \<Longrightarrow> arc (y + 24) 16 \<inter> arc (x0 + 32) 8 = {}"
      proof -
        fix y assume y: "y \<in> set rest"
        then have "y \<noteq> x0" using Cons.prems(7) by auto
        with bd [of y x0] y have "arc (y + 24) 16 \<inter> arc (x0 + 24) 16 = {}" by simp
        with s16(2) [of x0] show "arc (y + 24) 16 \<inter> arc (x0 + 32) 8 = {}" by blast
      qed
      from a b show ?thesis unfolding link_cells_def by blast
    qed
    have "load64 (detach m h) cell = x0" "load64 (detach m h) (x0 + 32) = cell"
      using load64_only_in [OF ih(2) dc] load64_only_in [OF ih(2) dp] c by simp_all
    with ih c(2) False only_in_mono [OF ih(2) sub] show ?thesis by simp
  qed
qed

lemma gp_listHead_nonzero: "gp_listHead \<noteq> 0"
  by (simp add: gp_listHead_def)

lemma seps_remove1: "seps m xs \<Longrightarrow> seps m (remove1 h xs)"
proof (induction xs)
  case Nil then show ?case by simp
next
  case (Cons x xs)
  then show ?case using notin_set_remove1 [of _ xs h] by (cases "h = x") auto
qed

lemma body_links_disj:
  assumes sp: "seps m xs" and x: "x \<in> set xs"
  shows "body m x \<inter> link_cells gp_listHead xs = {}"
proof -
  have blkin: "\<And>y. y \<in> set xs \<Longrightarrow> arc (y + 24) 16 \<subseteq> arc y (blk m y)"
  proof -
    fix y assume "y \<in> set xs"
    from seps_mem [OF sp this] have "blk m y \<le> 2 ^ 64" by linarith
    with blk_ge show "arc (y + 24) 16 \<subseteq> arc y (blk m y)" by (rule links_in_blk(3))
  qed
  have a: "arc x (blk m x) \<inter> arc gp_listHead 8 = {}"
    using seps_mem [OF sp x] by (auto dest: sep_arcs)
  have b: "\<And>y. y \<in> set xs \<Longrightarrow> y \<noteq> x \<Longrightarrow> arc x (blk m x) \<inter> arc (y + 24) 16 = {}"
    using sep_arcs [OF seps_pair [OF sp x]] blkin by blast
  show ?thesis unfolding link_cells_def body_def using a b by blast
qed

lemma registry_links_frame:
  assumes reg: "registry m xs" and oi: "only_in (link_cells gp_listHead xs) m m'"
    and x: "x \<in> set xs"
  shows "load64 m' x = load64 m x" "load64 m' (x + 8) = load64 m (x + 8)"
    "intact m' x = intact m x" "blk m' x = blk m x"
proof -
  from reg have sp: "seps m xs" by (simp add: registry_def)
  have eq: "\<And>y. y \<in> body m x \<Longrightarrow> m' y = m y"
    using body_links_disj [OF sp x] only_in_frame [OF oi] by blast
  from rec_frame [OF conjunct1 [OF seps_mem [OF sp x]] eq]
  show "load64 m' x = load64 m x" "load64 m' (x + 8) = load64 m (x + 8)"
    "intact m' x = intact m x" "blk m' x = blk m x" by simp_all
qed

lemma registry_detach:
  assumes reg: "registry m xs" and hin: "h \<in> set xs"
  shows "registry (detach m h) (remove1 h xs)"
    and "load64 (detach m h) (h + 32) = 0"
    and "load64 (detach m h) (h + 24) = load64 m (h + 24)"
    and "only_in (link_cells gp_listHead xs) m (detach m h)"
proof -
  from reg have ch: "chain m gp_listHead xs" and sp: "seps m xs" by (simp_all add: registry_def)
  have nw: "\<And>x. x \<in> set xs \<Longrightarrow> unat x + blk m x \<le> 2 ^ 64" using seps_mem [OF sp] by simp
  have cs: "\<And>x. x \<in> set xs \<Longrightarrow> sep x (blk m x) gp_listHead 8" using seps_mem [OF sp] by simp
  note cd = chain_detach [OF ch hin gp_listHead_nonzero nw seps_pair [OF sp] cs seps_distinct [OF sp]]
  from cd show "load64 (detach m h) (h + 32) = 0" "load64 (detach m h) (h + 24) = load64 m (h + 24)"
    and oi: "only_in (link_cells gp_listHead xs) m (detach m h)" by simp_all
  have "seps (detach m h) xs = seps m xs"
    using registry_links_frame(2) [OF reg oi] by (intro seps_cong) simp
  with sp have "seps (detach m h) xs" by simp
  then have "seps (detach m h) (remove1 h xs)" by (rule seps_remove1)
  with cd show "registry (detach m h) (remove1 h xs)" by (simp add: registry_def)
qed

lemma payload_nonzero:
  assumes "unat (h :: 64 word) + L \<le> 2 ^ 64" "72 \<le> L"
  shows "h + 56 \<noteq> 0"
proof
  assume z: "h + 56 = 0"
  have "unat (h + 56) = unat h + 56" using assms unat_plus_if' [of h 56] by simp
  with z show False by simp
qed

lemma free_tracked:
  assumes t: "tracked st xs" and hin: "h \<in> set xs"
  shows "\<exists>st'. free st (h + 56) = Inr st' \<and> tracked st' (remove1 h xs)
     \<and> gi_hookDisabled st' = gi_hookDisabled st
     \<and> gi_allocCount st' = (if gi_hookDisabled st then gi_allocCount st else gi_allocCount st - 1)
     \<and> heap_blocks st' = (heap_blocks st)(h := None)
     \<and> mem st' = detach (mem st) h"
proof -
  from t have g: "gp_orgMalloc st" "gp_orgRealloc st" "gp_orgFree st" and reg: "registry (mem st) xs"
    by (simp_all add: tracked_def)
  from reg have sp: "seps (mem st) xs" by (simp add: registry_def)
  have nz: "h + 56 \<noteq> 0" using seps_mem [OF sp hin] blk_ge payload_nonzero by blast
  have v: "verifyIntegrity (mem st) (h + 56) = Inr h" using t hin by (simp add: tracked_def)
  note rd = registry_detach [OF reg hin]
  have "\<And>x. x \<in> set (remove1 h xs) \<Longrightarrow> verifyIntegrity (detach (mem st) h) (x + 56) = Inr x"
  proof -
    fix x assume "x \<in> set (remove1 h xs)"
    then have x: "x \<in> set xs" using set_remove1_subset [of h xs] by blast
    from registry_links_frame(3) [OF reg rd(4) x] tracked_intact [OF t x]
    show "verifyIntegrity (detach (mem st) h) (x + 56) = Inr x" by (simp add: verify_iff)
  qed
  with rd(1) g nz v show ?thesis
    by (simp add: free_def internalFree_def org_free_def Let_def tracked_def)
qed

lemma link_cell_disj:
  assumes sp: "seps m (x0 # rest)"
  shows "link_cells gp_listHead rest \<inter> arc (x0 + 32) 8 = {}"
proof -
  have x0: "x0 \<in> set (x0 # rest)" by simp
  from seps_mem [OF sp x0] have b0: "blk m x0 \<le> 2 ^ 64" by linarith
  have in0: "arc (x0 + 32) 8 \<subseteq> arc x0 (blk m x0)" using blk_ge b0 by (rule links_in_blk(2))
  have a: "arc x0 (blk m x0) \<inter> arc gp_listHead 8 = {}"
    using seps_mem [OF sp x0] by (auto dest: sep_arcs)
  have b: "\<And>y. y \<in> set rest \<Longrightarrow> arc (y + 24) 16 \<inter> arc x0 (blk m x0) = {}"
  proof -
    fix y assume y: "y \<in> set rest"
    then have yin: "y \<in> set (x0 # rest)" by simp
    from seps_mem [OF sp yin] have "blk m y \<le> 2 ^ 64" by linarith
    with blk_ge have iny: "arc (y + 24) 16 \<subseteq> arc y (blk m y)" by (rule links_in_blk(3))
    from sp y have "sep x0 (blk m x0) y (blk m y)" by simp
    from sep_arcs [OF this] iny show "arc (y + 24) 16 \<inter> arc x0 (blk m x0) = {}" by blast
  qed
  from a b in0 show ?thesis unfolding link_cells_def by blast
qed

lemma ignore_loop_registry:
  "registry m xs \<Longrightarrow>
   \<exists>m'. ignore_loop m (load64 m gp_listHead) = Some m' \<and> load64 m' gp_listHead = 0
     \<and> only_in (link_cells gp_listHead xs) m m' \<and> (\<forall>x \<in> set xs. load64 m' (x + 32) = 0)"
proof (induction xs arbitrary: m)
  case Nil
  then have "load64 m gp_listHead = 0" by (simp add: registry_def)
  then show ?case by (subst ignore_loop.simps) (simp add: only_in_refl)
next
  case (Cons x0 rest)
  from Cons.prems have ch: "chain m gp_listHead (x0 # rest)" and sp: "seps m (x0 # rest)"
    by (simp_all add: registry_def)
  from ch have c: "load64 m gp_listHead = x0" "x0 \<noteq> 0" "load64 m (x0 + 32) = gp_listHead"
    "chain m (x0 + 24) rest" by simp_all
  have x0: "x0 \<in> set (x0 # rest)" by simp
  note rd = registry_detach [OF Cons.prems x0]
  define m1 where "m1 = detach m x0"
  have d: "store64 (LIST_REMOVE m x0) (x0 + 32) 0 = m1"
    unfolding m1_def detach_def using c(3) gp_listHead_nonzero by simp
  from rd(1) have r1: "registry m1 rest" by (simp add: m1_def)
  have nx: "load64 m1 (x0 + 24) = load64 m1 gp_listHead"
  proof -
    from r1 have "chain m1 gp_listHead rest" by (simp add: registry_def)
    from chain_first [OF this] chain_first [OF c(4)] rd(3) show ?thesis by (simp add: m1_def)
  qed
  from Cons.IH [OF r1] obtain m' where
    ih: "ignore_loop m1 (load64 m1 gp_listHead) = Some m'" "load64 m' gp_listHead = 0"
      "only_in (link_cells gp_listHead rest) m1 m'" "\<forall>x \<in> set rest. load64 m' (x + 32) = 0"
    by blast
  have step: "ignore_loop m (load64 m gp_listHead) = Some m'"
    unfolding c(1) by (subst ignore_loop.simps) (simp add: c(2) d nx ih(1))
  have sub: "link_cells gp_listHead rest \<subseteq> link_cells gp_listHead (x0 # rest)"
    by (auto simp: link_cells_def)
  have oi: "only_in (link_cells gp_listHead (x0 # rest)) m m'"
    using only_in_trans [OF rd(4) [folded m1_def] only_in_mono [OF ih(3) sub]] by simp
  have "load64 m' (x0 + 32) = load64 m1 (x0 + 32)"
    by (rule load64_only_in [OF ih(3) link_cell_disj [OF sp]])
  with rd(2) have "load64 m' (x0 + 32) = 0" by (simp add: m1_def)
  with step ih oi show ?case by auto
qed

lemma ignore_tracked:
  assumes t: "tracked st xs"
  shows "\<exists>st'. mem_ignore_current_allocations st = Some st' \<and> tracked st' [] \<and> gi_allocCount st' = 0
     \<and> gi_hookDisabled st' = gi_hookDisabled st \<and> heap_blocks st' = heap_blocks st
     \<and> only_in (link_cells gp_listHead xs) (mem st) (mem st')
     \<and> (\<forall>x \<in> set xs. load64 (mem st') (x + 32) = 0 \<and> intact (mem st') x
           \<and> load64 (mem st') x = load64 (mem st) x
           \<and> load64 (mem st') (x + 8) = load64 (mem st) (x + 8))"
proof -
  from t have g: "gp_orgMalloc st" "gp_orgRealloc st" "gp_orgFree st" and reg: "registry (mem st) xs"
    by (simp_all add: tracked_def)
  from ignore_loop_registry [OF reg] obtain m' where
    r: "ignore_loop (mem st) (load64 (mem st) gp_listHead) = Some m'" "load64 m' gp_listHead = 0"
      "only_in (link_cells gp_listHead xs) (mem st) m'" "\<forall>x \<in> set xs. load64 m' (x + 32) = 0"
    by blast
  have "\<And>x. x \<in> set xs \<Longrightarrow> intact m' x \<and> load64 m' x = load64 (mem st) x
      \<and> load64 m' (x + 8) = load64 (mem st) (x + 8)"
    using registry_links_frame [OF reg r(3)] tracked_intact [OF t] by simp
  with r g show ?thesis
    by (simp add: mem_ignore_current_allocations_def tracked_def registry_def)
qed

lemma free_detached:
  assumes "intact (mem st) h" and "load64 (mem st) (h + 32) = 0" and "gp_orgFree st"
    and "h + 56 \<noteq> 0"
  shows "free st (h + 56) =
     Inr (st\<lparr>gi_allocCount := (if gi_hookDisabled st then gi_allocCount st else gi_allocCount st - 1),
            heap_blocks := (heap_blocks st)(h := None)\<rparr>)"
  using assms
  by (simp add: free_def internalFree_def org_free_def detach_def Let_def verify_intact)

lemma registry_outside_frame:
  assumes reg: "registry m xs" and oi: "only_in S m m'"
    and hd: "S \<inter> arc gp_listHead 8 = {}"
    and bl: "\<And>x. x \<in> set xs \<Longrightarrow> S \<inter> arc x (blk m x) = {}"
  shows "registry m' xs"
    and "\<And>x. x \<in> set xs \<Longrightarrow> load64 m' x = load64 m x \<and> load64 m' (x + 8) = load64 m (x + 8)
          \<and> intact m' x = intact m x \<and> blk m' x = blk m x"
proof -
  from reg have ch: "chain m gp_listHead xs" and sp: "seps m xs" by (simp_all add: registry_def)
  have fr: "\<And>x. x \<in> set xs \<Longrightarrow> load64 m' x = load64 m x \<and> load64 m' (x + 8) = load64 m (x + 8)
          \<and> intact m' x = intact m x \<and> blk m' x = blk m x"
  proof -
    fix x assume x: "x \<in> set xs"
    have eq: "\<And>y. y \<in> body m x \<Longrightarrow> m' y = m y"
      using bl [OF x] only_in_frame [OF oi] unfolding body_def by blast
    from rec_frame [OF conjunct1 [OF seps_mem [OF sp x]] eq]
    show "load64 m' x = load64 m x \<and> load64 m' (x + 8) = load64 m (x + 8)
          \<and> intact m' x = intact m x \<and> blk m' x = blk m x" by simp
  qed
  then show "\<And>x. x \<in> set xs \<Longrightarrow> load64 m' x = load64 m x \<and> load64 m' (x + 8) = load64 m (x + 8)
          \<and> intact m' x = intact m x \<and> blk m' x = blk m x" .
  have lk: "\<And>x. x \<in> set xs \<Longrightarrow> load64 m' (x + 24) = load64 m (x + 24) \<and> load64 m' (x + 32) = load64 m (x + 32)"
  proof -
    fix x assume x: "x \<in> set xs"
    from seps_mem [OF sp x] have "blk m x \<le> 2 ^ 64" by linarith
    from links_in_blk(1) [OF blk_ge this] links_in_blk(2) [OF blk_ge this] bl [OF x]
    have "S \<inter> arc (x + 24) 8 = {}" "S \<inter> arc (x + 32) 8 = {}" by blast+
    then show "load64 m' (x + 24) = load64 m (x + 24) \<and> load64 m' (x + 32) = load64 m (x + 32)"
      using load64_only_in [OF oi] by simp
  qed
  have "chain m' gp_listHead xs = chain m gp_listHead xs"
    using load64_only_in [OF oi hd] lk by (intro chain_cong) auto
  moreover have "seps m' xs = seps m xs" using fr by (intro seps_cong) simp
  ultimately show "registry m' xs" using ch sp by (simp add: registry_def)
qed

lemma only_in_copy_bytes: "only_in (arc dst (unat n)) m (copy_bytes m src dst n)"
  by (simp add: only_in_def copy_bytes_def arc_def word_less_nat_alt)

lemma arc_mono: "n \<le> k \<Longrightarrow> arc a n \<subseteq> arc a k"
  by (auto simp: arc_def)

lemma realloc_failure:
  assumes t: "tracked st xs" and hin: "h \<in> set xs"
  shows "realloc st (h + 56) sz 0 = Inr (0, st\<lparr>mem := detach (mem st) h\<rparr>)"
    and "tracked (st\<lparr>mem := detach (mem st) h\<rparr>) (remove1 h xs)"
    and "intact (detach (mem st) h) h"
    and "load64 (detach (mem st) h) h = load64 (mem st) h"
    and "load64 (detach (mem st) h) (h + 8) = load64 (mem st) (h + 8)"
proof -
  from t have g: "gp_orgMalloc st" "gp_orgRealloc st" "gp_orgFree st" and reg: "registry (mem st) xs"
    by (simp_all add: tracked_def)
  from reg have sp: "seps (mem st) xs" by (simp add: registry_def)
  have nz: "h + 56 \<noteq> 0" using seps_mem [OF sp hin] blk_ge payload_nonzero by blast
  have v: "verifyIntegrity (mem st) (h + 56) = Inr h" using t hin by (simp add: tracked_def)
  show "realloc st (h + 56) sz 0 = Inr (0, st\<lparr>mem := detach (mem st) h\<rparr>)"
    using g nz v by (simp add: realloc_def internalRealloc_def org_realloc_def Let_def)
  note rd = registry_detach [OF reg hin]
  note fr = registry_links_frame [OF reg rd(4)]
  have "\<And>x. x \<in> set (remove1 h xs) \<Longrightarrow> verifyIntegrity (detach (mem st) h) (x + 56) = Inr x"
  proof -
    fix x assume "x \<in> set (remove1 h xs)"
    then have x: "x \<in> set xs" using set_remove1_subset [of h xs] by blast
    from fr(3) [OF x] tracked_intact [OF t x]
    show "verifyIntegrity (detach (mem st) h) (x + 56) = Inr x" by (simp add: verify_iff)
  qed
  with rd(1) g show "tracked (st\<lparr>mem := detach (mem st) h\<rparr>) (remove1 h xs)"
    by (simp add: tracked_def)
  show "intact (detach (mem st) h) h" using fr(3) [OF hin] tracked_intact [OF t hin] by simp
  show "load64 (detach (mem st) h) h = load64 (mem st) h" by (rule fr(1) [OF hin])
  show "load64 (detach (mem st) h) (h + 8) = load64 (mem st) (h + 8)" by (rule fr(2) [OF hin])
qed

lemma realloc_success:
  assumes t: "tracked st xs" and hin: "h \<in> set xs"
    and f: "fresh (mem st) (remove1 h xs) r sz"
    and n: "unat (adjust_size sz 1) \<le> foot r sz"
  shows "\<exists>st'. realloc st (h + 56) sz r = Inr (r + 56, st') \<and> tracked st' (r # remove1 h xs)
     \<and> gi_allocCount st' = gi_allocCount st \<and> gi_hookDisabled st' = gi_hookDisabled st
     \<and> load64 (mem st') r = (if gi_hookDisabled st then 0 else szEmpty)
     \<and> load64 (mem st') (r + 8) = sz
     \<and> heap_blocks st' = ((heap_blocks st)(h := None))(r \<mapsto> adjust_size sz 1)"
proof -
  note rf = realloc_failure [OF t hin]
  from t have g: "gp_orgMalloc st" "gp_orgRealloc st" "gp_orgFree st" and reg: "registry (mem st) xs"
    by (simp_all add: tracked_def)
  from reg have sp: "seps (mem st) xs" by (simp add: registry_def)
  have nz: "h + 56 \<noteq> 0" using seps_mem [OF sp hin] blk_ge payload_nonzero by blast
  have v: "verifyIntegrity (mem st) (h + 56) = Inr h" using t hin by (simp add: tracked_def)
  from f have r0: "r \<noteq> 0" and hd: "sep r (foot r sz) gp_listHead 8"
    and fx: "\<And>x. x \<in> set (remove1 h xs) \<Longrightarrow> sep r (foot r sz) x (blk (mem st) x)"
    by (simp_all add: fresh_def)
  define m1 where "m1 = detach (mem st) h"
  define st2 where "st2 = org_realloc (st\<lparr>mem := m1\<rparr>) h (adjust_size sz 1) r"
  define S where "S = arc r (foot r sz)"
  from rf(2) have reg1: "registry m1 (remove1 h xs)" by (simp add: tracked_def m1_def)
  have sub: "\<And>x. x \<in> set (remove1 h xs) \<Longrightarrow> x \<in> set xs"
    using set_remove1_subset [of h xs] by blast
  note rd = registry_detach [OF reg hin]
  have blk1: "\<And>x. x \<in> set (remove1 h xs) \<Longrightarrow> blk m1 x = blk (mem st) x"
    using registry_links_frame(4) [OF reg rd(4)] sub by (simp add: m1_def)
  have oi: "only_in S m1 (mem st2)"
  proof -
    have "\<And>k. only_in S m1 (copy_bytes m1 h r (min k (adjust_size sz 1)))"
    proof -
      fix k
      have "unat (min k (adjust_size sz 1)) \<le> foot r sz"
        using n by (simp add: min_def word_le_nat_alt)
      from only_in_mono [OF only_in_copy_bytes arc_mono [OF this]]
      show "only_in S m1 (copy_bytes m1 h r (min k (adjust_size sz 1)))" by (simp add: S_def)
    qed
    then show ?thesis using r0 by (simp add: st2_def org_realloc_def Let_def only_in_refl)
  qed
  have Shd: "S \<inter> arc gp_listHead 8 = {}" unfolding S_def by (rule sep_arcs [OF hd])
  have Sbl: "\<And>x. x \<in> set (remove1 h xs) \<Longrightarrow> S \<inter> arc x (blk m1 x) = {}"
    unfolding S_def using sep_arcs [OF fx] blk1 by simp
  have of1: "registry (mem st2) (remove1 h xs)"
    by (rule registry_outside_frame(1) [OF reg1 oi Shd]) (rule Sbl)
  have of2: "\<And>x. x \<in> set (remove1 h xs) \<Longrightarrow> load64 (mem st2) x = load64 m1 x
      \<and> load64 (mem st2) (x + 8) = load64 m1 (x + 8)
      \<and> intact (mem st2) x = intact m1 x \<and> blk (mem st2) x = blk m1 x"
    by (rule registry_outside_frame(2) [OF reg1 oi Shd]) (rule Sbl)
  have f2: "fresh (mem st2) (remove1 h xs) r sz"
    using f of2 blk1 by (simp add: fresh_def)
  define c where "c = (if gi_hookDisabled st then 0 else szEmpty)"
  note ri = registry_insert [OF of1 f2, where c = c and tid = "thread_self st"]
  define M where "M = build_record (mem st2) r c sz (thread_self st)"
  have res: "realloc st (h + 56) sz r =
      Inr (r + 56, st2\<lparr>mem := M\<rparr>)"
    using g nz v r0
    by (simp add: realloc_def internalRealloc_def Let_def count_allocation_def trace_def
        sizeof_memoryHeader_def st2_def m1_def M_def c_def org_realloc_def)
  have fl: "gp_orgMalloc st2" "gp_orgRealloc st2" "gp_orgFree st2"
    "gi_allocCount st2 = gi_allocCount st" "gi_hookDisabled st2 = gi_hookDisabled st"
    "heap_blocks st2 = ((heap_blocks st)(h := None))(r \<mapsto> adjust_size sz 1)"
    using g r0 by (simp_all add: st2_def org_realloc_def Let_def)
  have int: "\<And>x. x \<in> set (remove1 h xs) \<Longrightarrow> intact M x"
  proof -
    fix x assume x: "x \<in> set (remove1 h xs)"
    from rf(2) x have "intact m1 x" by (simp add: tracked_def m1_def verify_iff)
    with of2 [OF x] ri(5) [OF x] show "intact M x" by (simp add: M_def)
  qed
  have "tracked (st2\<lparr>mem := M\<rparr>) (r # remove1 h xs)"
    using ri(1) ri(4) int fl by (simp add: tracked_def M_def verify_iff)
  with res ri(2) ri(3) fl show ?thesis by (auto simp add: M_def c_def)
qed






lemma aligned_plus55:
  assumes al: "(r :: 64 word) mod 8 = 0"
  shows "unat (r + 55) mod 8 = 7"
proof -
  from al have "unat r mod 8 = 0" by (simp add: mod8_nat)
  moreover have "unat (r + 55) mod 8 = (unat r + 55) mod 8"
    by (simp add: unat_word_ariths mod_mod_cancel)
  moreover from \<open>unat r mod 8 = 0\<close> obtain q where "unat r = 8 * q"
    by (auto simp: mod_eq_0_iff_dvd elim: dvdE)
  ultimately show ?thesis by simp
qed

lemma max_size_corrupts_guard:
  fixes m r c tid
  defines "first \<equiv> load64 m gp_listHead"
  assumes al: "r mod 8 = 0"
    and hd: "sep r 72 gp_listHead 8"
    and fs: "first \<noteq> 0 \<Longrightarrow> sep r 72 (first + 32) 8"
    and fh: "first \<noteq> 0 \<Longrightarrow> sep (first + 32) 8 gp_listHead 8"
  shows "verifyIntegrity (build_record m r c (- 1) tid) (r + 56) = Inl (TopGuardCorrupt 1)"
proof -
  define H where "H = hdr_phase m r c (- 1) tid"
  have L: "(72 :: nat) \<le> 72" by simp
  have h2: "load64 H (r + 8) = - 1" unfolding H_def
    by (rule hdr_phase_props(2) [OF L hd]) (use fs fh in \<open>simp_all add: first_def\<close>)
  have h7: "load64 H (r + 40) = GUARD_BAND_TOP" unfolding H_def
    by (rule hdr_phase_props(7) [OF L hd]) (use fs fh in \<open>simp_all add: first_def\<close>)
  have h8: "load64 H (r + 48) = GUARD_BAND_TOP" unfolding H_def
    by (rule hdr_phase_props(8) [OF L hd]) (use fs fh in \<open>simp_all add: first_def\<close>)
  have p1: "pad_len (r + 55) = 1" by (simp add: pad_len_def aligned_plus55 [OF al])
  have e1: "r + 56 + - 1 = r + 55" by simp
  have fp: "fill_padding H (r + 56) (- 1) = (pad_fill H (r + 55) 1, 0)"
    unfolding fill_padding_eq [of H "r + 56" "- 1"] e1 p1 by simp
  have bre: "build_record m r c (- 1) tid =
      (case fill_padding H (r + 56) (load64 H (r + 8)) of
         (m9, s) \<Rightarrow> store64 (store64 m9 (r + 56 + s) GUARD_BAND_BOTTOM) (r + 56 + s + 8)
             GUARD_BAND_BOTTOM)"
    unfolding build_record_def H_def hdr_phase_def Let_def sizeof_memoryHeader_def by (rule refl)
  have M: "build_record m r c (- 1) tid =
      store64 (store64 (pad_fill H (r + 55) 1) (r + 56) GUARD_BAND_BOTTOM) (r + 64) GUARD_BAND_BOTTOM"
  proof -
    have "build_record m r c (- 1) tid =
        store64 (store64 (pad_fill H (r + 55) 1) (r + 56 + 0) GUARD_BAND_BOTTOM) (r + 56 + 0 + 8)
           GUARD_BAND_BOTTOM"
      by (simp only: bre h2 fp prod.case)
    moreover have e3: "r + 56 + 0 = r + 56" by simp
    moreover have e2: "r + 56 + 8 = r + 64" by simp
    ultimately show ?thesis by (simp only:)
  qed
  have s1: "sep (r + 55) 1 (r + 40) 8"
  proof -
    have "sep (r + of_nat 40) 8 (r + of_nat 55) 1" by (rule sep_off) simp_all
    then show ?thesis by (simp add: sep_sym)
  qed
  have g0: "load64 (build_record m r c (- 1) tid) (r + 40) = GUARD_BAND_TOP"
    unfolding M using s1 h7 by (simp add: load64_store64_sep load64_pad_fill_sep)
  have g1: "load64 (build_record m r c (- 1) tid) (r + 48) = load64 (pad_fill H (r + 55) 1) (r + 48)"
    unfolding M by (simp add: load64_store64_sep)
  have ne: "load64 (pad_fill H (r + 55) 1) (r + 48) \<noteq> GUARD_BAND_TOP"
  proof
    assume e: "load64 (pad_fill H (r + 55) 1) (r + 48) = GUARD_BAND_TOP"
    have x: "r + 55 \<in> arc (r + 48) 8" by (simp add: arc_def)
    from load64_inj [OF _ x, of "pad_fill H (r + 55) 1" H] e h8
    have "pad_fill H (r + 55) 1 (r + 55) = H (r + 55)" by simp
    moreover have "pad_fill H (r + 55) 1 (r + 55) = ucast (r + 55)"
      by (rule pad_fill_in) (simp add: arc_def)
    moreover have "H (r + 55) = 0xDE"
    proof -
      have e4: "r + 48 + 7 = r + 55" by simp
      have b: "byte_of GUARD_BAND_TOP 7 = 0xDE" by (simp add: byte_of_def GUARD_BAND_TOP_def)
      have "byte_of (load64 H (r + 48)) 7 = H (r + 48 + 7)" by (rule byte_of_load64) simp
      then show ?thesis unfolding h8 e4 b by (rule sym)
    qed
    ultimately have "(ucast (r + 55) :: 8 word) = 0xDE" by simp
    then have "unat (ucast (r + 55) :: 8 word) mod 8 = 6" by simp
    moreover have "unat (ucast (r + 55) :: 8 word) mod 8 = unat (r + 55) mod 8"
      by (simp add: unsigned_ucast_eq unsigned_take_bit_eq take_bit_eq_mod mod_mod_cancel)
    ultimately show False using aligned_plus55 [OF al] by simp
  qed
  show ?thesis using g0 g1 ne
    by (simp add: verifyIntegrity_def Let_def sizeof_memoryHeader_def)
qed

section \<open>Facts about the concrete states\<close>

lemma ready_state_flags:
  "gp_orgMalloc ready_state \<and> gp_orgRealloc ready_state \<and> gp_orgFree ready_state
   \<and> \<not> gi_hookDisabled ready_state"
  using ready_tracked by (simp add: tracked_def)

lemma ready_blk: "blk (mem ready_state) 0x1000 = 72"
  using ready_tracked by (simp add: blk_def foot_def pad_len_def)

lemma fresh_one_block: "fresh (mem ready_state) [0x1000] 0x2000 (8 * 1)"
  by (simp add: fresh_def foot_def pad_len_def sep_def gp_listHead_def ready_blk)

lemma one_block_facts:
  "malloc ready_state 8 0x2000 = Inr (0x2038, one_block_state)
   \<and> tracked one_block_state [0x2000, 0x1000] \<and> \<not> gi_hookDisabled one_block_state
   \<and> gi_allocCount one_block_state = 2
   \<and> load64 (mem one_block_state) 0x2000 = szEmpty \<and> load64 (mem one_block_state) 0x2008 = 8
   \<and> load64 (mem one_block_state) 0x1000 = szEmpty \<and> load64 (mem one_block_state) 0x1008 = 0"
proof -
  from ready_tracked have t: "tracked ready_state [0x1000]" by simp
  from alloc_tracked [OF t fresh_one_block, of MALLOC] ready_tracked
  obtain st' where m: "internalRealloc ready_state 0 8 1 MALLOC 0x2000 = Inr (0x2000 + 56, st')"
    and f: "tracked st' [0x2000, 0x1000]" "\<not> gi_hookDisabled st'" "gi_allocCount st' = 2"
      "load64 (mem st') 0x2000 = szEmpty" "load64 (mem st') (0x2000 + 8) = 8 * 1"
    and u: "usage_sum (mem st') [0x1000] = usage_sum (mem ready_state) [0x1000]"
      "real_usage_sum (mem st') [0x1000] = real_usage_sum (mem ready_state) [0x1000]"
    by auto
  from m have e: "malloc ready_state 8 0x2000 = Inr (0x2038, st')"
    using ready_state_flags by (simp add: malloc_def)
  then have o: "one_block_state = st'" by (simp add: one_block_state_def)
  have old: "load64 (mem st') 0x1000 = szEmpty \<and> load64 (mem st') 0x1008 = 0"
  proof -
    from ready_tracked have r: "registry (mem ready_state) [0x1000]" by (simp add: tracked_def)
    from registry_insert(5) [OF r fresh_one_block, of "0x1000" szEmpty "thread_self ready_state"]
    have "load64 (build_record (mem ready_state) 0x2000 szEmpty (8 * 1) (thread_self ready_state)) 0x1000
       = load64 (mem ready_state) 0x1000
       \<and> load64 (build_record (mem ready_state) 0x2000 szEmpty (8 * 1) (thread_self ready_state)) (0x1000 + 8)
       = load64 (mem ready_state) (0x1000 + 8)" by simp
    moreover have "mem st' = build_record (mem ready_state) 0x2000 szEmpty (8 * 1) (thread_self ready_state)"
      using m ready_state_flags by (auto simp add: internalRealloc_new)
    ultimately show ?thesis using ready_tracked by simp
  qed
  show ?thesis unfolding o using e f old by simp
qed

lemma nested_tracked:
  "tracked nested_state [0x1000] \<and> gi_hookDisabled nested_state \<and> gi_allocCount nested_state = 1"
  using ready_tracked by (simp add: nested_state_def tracked_def)

section \<open>Exhaustion of the underlying allocator\<close>

text \<open>
  C1, as the code has it: once the underlying allocator is resolved, a request that the
  underlying allocator refuses makes \<open>malloc\<close> return the null pointer and leave the whole
  state as it was. Nothing aborts.
\<close>

theorem malloc_exhausted_returns_null:
  "gp_orgMalloc st \<Longrightarrow> gp_orgRealloc st \<Longrightarrow> malloc st sz 0 = Inr (0, st)"
  by (simp add: malloc_def internalRealloc_def org_realloc_def Let_def)

theorem malloc_exhausted_returns_null_witness:
  "gp_orgMalloc ready_state \<and> gp_orgRealloc ready_state
   \<and> malloc ready_state 16 0 = Inr (0, ready_state)"
  using malloc_exhausted_returns_null [of ready_state 16] ready_state_flags by simp

text \<open>C1 as stated fails: the refused request returns a value, the null pointer.\<close>

theorem malloc_exhausted_counterexample:
  "malloc ready_state 16 0 = Inr (0, ready_state)"
  using ready_state_flags
  by (simp add: malloc_def internalRealloc_def org_realloc_def Let_def)

section \<open>Usage accounting\<close>

text \<open>
  C4, as the code has it. From a state whose registry holds intact records, with Usage \<open>u\<close>,
  RealUsage \<open>ru\<close> and a live count that stays below \<open>2^31\<close>, N successful allocations of
  sizes \<open>s1..sN\<close> by a caller (re-entrancy flag clear), each answered with a fresh block,
  give Usage \<open>u + (s1 + ... + sN)\<close>, RealUsage \<open>ru + (s1 + ... + sN) + N * 72\<close> (72 is
  header plus cap; both sums are \<open>size_t\<close> arithmetic) and a live count raised by N.
\<close>

theorem usage_after_allocations:
  assumes "tracked st xs" and "\<not> gi_hookDisabled st" and "fresh_all st xs reqs"
    and "mem_get_alloc_count st + int (length reqs) < 2 ^ 31"
    and "mem_get_usage st = Some (Inr u)" and "mem_get_real_usage st = Some (Inr ru)"
  shows "\<exists>st'. mallocs st reqs = Inr st'
     \<and> mem_get_usage st' = Some (Inr (u + sum_list (map fst reqs)))
     \<and> mem_get_real_usage st' = Some (Inr (ru + sum_list (map fst reqs) + 72 * of_nat (length reqs)))
     \<and> mem_get_alloc_count st' = mem_get_alloc_count st + int (length reqs)"
proof -
  from mallocs_tracked [OF assms(1-3)] obtain st' where
    r: "mallocs st reqs = Inr st'" "tracked st' (rev (map snd reqs) @ xs)"
      "gi_allocCount st' = gi_allocCount st + of_nat (length reqs)"
      "usage_sum (mem st') (rev (map snd reqs) @ xs) = usage_sum (mem st) xs + sum_list (map fst reqs)"
      "real_usage_sum (mem st') (rev (map snd reqs) @ xs) =
         real_usage_sum (mem st) xs + sum_list (map fst reqs) + 72 * of_nat (length reqs)"
    by blast
  from assms(5) usage_tracked [OF assms(1)] have u: "u = usage_sum (mem st) xs" by simp
  from assms(6) real_usage_tracked [OF assms(1)] have ru: "ru = real_usage_sum (mem st) xs" by simp
  have c: "mem_get_alloc_count st' = mem_get_alloc_count st + int (length reqs)"
    using assms(4) unfolding mem_get_alloc_count_def r(3) by (rule sint_add_nat)
  show ?thesis
    using r(1) usage_tracked [OF r(2)] real_usage_tracked [OF r(2)] r(4) r(5) c u ru by simp
qed

lemma fresh_all_two: "fresh_all ready_state [0x1000] [(8, 0x2000), (5, 0x3000)]"
proof -
  have b: "blk (mem one_block_state) 0x2000 = 80" "blk (mem one_block_state) 0x1000 = 72"
    using one_block_facts by (simp_all add: blk_def foot_def pad_len_def)
  have "fresh (mem one_block_state) [0x2000, 0x1000] 0x3000 5"
    by (simp add: fresh_def foot_def pad_len_def sep_def gp_listHead_def b)
  moreover obtain q st2 where "malloc one_block_state 5 0x3000 = Inr (q, st2)"
    using one_block_facts malloc_success [of one_block_state "0x3000" 5]
    by (simp add: tracked_def)
  ultimately show ?thesis using fresh_one_block one_block_facts by simp
qed

theorem usage_after_allocations_witness:
  "tracked ready_state [0x1000] \<and> \<not> gi_hookDisabled ready_state
   \<and> fresh_all ready_state [0x1000] [(8, 0x2000), (5, 0x3000)]
   \<and> mem_get_usage ready_state = Some (Inr 0) \<and> mem_get_real_usage ready_state = Some (Inr 72)
   \<and> mem_get_alloc_count ready_state = 1
   \<and> (\<exists>st'. mallocs ready_state [(8, 0x2000), (5, 0x3000)] = Inr st'
        \<and> mem_get_usage st' = Some (Inr 13) \<and> mem_get_real_usage st' = Some (Inr 229)
        \<and> mem_get_alloc_count st' = 3)"
proof -
  from ready_tracked have t: "tracked ready_state [0x1000]" and h: "\<not> gi_hookDisabled ready_state"
    and c: "mem_get_alloc_count ready_state = 1"
    by (simp_all add: mem_get_alloc_count_def)
  have u: "mem_get_usage ready_state = Some (Inr 0)"
    using usage_tracked [OF t] ready_tracked by (simp add: usage_sum_def)
  have ru: "mem_get_real_usage ready_state = Some (Inr 72)"
    using real_usage_tracked [OF t] ready_tracked
    by (simp add: real_usage_sum_def sizeof_memoryHeader_def sizeof_memoryCap_def)
  have b: "mem_get_alloc_count ready_state + int (length [(8 :: 64 word, 0x2000 :: addr), (5, 0x3000)]) < 2 ^ 31"
    by (simp add: c)
  from usage_after_allocations [OF t h fresh_all_two b u ru] t h fresh_all_two u ru c
  show ?thesis by simp
qed

text \<open>
  C4 as stated fails right after initialisation: the constructor's own \<open>malloc (0)\<close> is a
  tracked record, so one allocation of 8 bytes leaves a live count of 2 and a RealUsage of
  \<open>8 + 2 * 72\<close>.
\<close>

theorem usage_after_allocations_counterexample:
  "mallocs ready_state [(8, 0x2000)] = Inr one_block_state
   \<and> mem_get_usage one_block_state = Some (Inr 8)
   \<and> mem_get_real_usage one_block_state = Some (Inr 152)
   \<and> mem_get_alloc_count one_block_state = 2"
proof -
  from one_block_facts have t: "tracked one_block_state [0x2000, 0x1000]" by simp
  show ?thesis
    using usage_tracked [OF t] real_usage_tracked [OF t] one_block_facts szEmpty_nonzero
    by (simp add: usage_sum_def real_usage_sum_def sizeof_memoryHeader_def sizeof_memoryCap_def
        mem_get_alloc_count_def)
qed

section \<open>The leak report\<close>




section \<open>Allocations made while the re-entrancy flag is set\<close>

text \<open>
  C10. An allocation (through \<open>malloc\<close>, \<open>calloc\<close> or \<open>realloc (NULL, _)\<close>) that runs while
  the re-entrancy flag is set and is answered with a fresh block is inserted at the head of
  the registry with a null attribution pointer, and the live count stays as it was. Usage
  does not change, RealUsage grows by the payload size plus 72.
\<close>

theorem reentrant_allocation:
  assumes "tracked st xs" and "gi_hookDisabled st" and "fresh (mem st) xs r (sz * nmemb)"
    and "mem_get_usage st = Some (Inr u)" and "mem_get_real_usage st = Some (Inr ru)"
  shows "\<exists>st'. internalRealloc st 0 sz nmemb type r = Inr (r + 56, st')
     \<and> registry (mem st') (r # xs) \<and> load64 (mem st') r = 0
     \<and> gi_allocCount st' = gi_allocCount st
     \<and> mem_get_usage st' = Some (Inr u)
     \<and> mem_get_real_usage st' = Some (Inr (ru + (sz * nmemb + 72)))"
proof -
  from alloc_tracked [OF assms(1) assms(3), of type] assms(2) obtain st' where
    r: "internalRealloc st 0 sz nmemb type r = Inr (r + 56, st')" "tracked st' (r # xs)"
      "gi_allocCount st' = gi_allocCount st" "load64 (mem st') r = 0"
      "load64 (mem st') (r + 8) = sz * nmemb"
      "usage_sum (mem st') xs = usage_sum (mem st) xs"
      "real_usage_sum (mem st') xs = real_usage_sum (mem st) xs"
    by auto
  from assms(4) usage_tracked [OF assms(1)] have u: "u = usage_sum (mem st) xs" by simp
  from assms(5) real_usage_tracked [OF assms(1)] have ru: "ru = real_usage_sum (mem st) xs" by simp
  show ?thesis
    using r usage_tracked [OF r(2)] real_usage_tracked [OF r(2)] u ru
    by (simp add: usage_sum_Cons real_usage_sum_Cons tracked_def add.commute add.left_commute)
qed

theorem reentrant_allocation_witness:
  "tracked nested_state [0x1000] \<and> gi_hookDisabled nested_state
   \<and> fresh (mem nested_state) [0x1000] 0x2000 (8 * 1)
   \<and> mem_get_usage nested_state = Some (Inr 0) \<and> mem_get_real_usage nested_state = Some (Inr 72)
   \<and> mem_get_alloc_count nested_state = 1
   \<and> (\<exists>st'. internalRealloc nested_state 0 8 1 MALLOC 0x2000 = Inr (0x2038, st')
        \<and> registry (mem st') [0x2000, 0x1000] \<and> load64 (mem st') 0x2000 = 0
        \<and> mem_get_alloc_count st' = 1
        \<and> mem_get_usage st' = Some (Inr 0) \<and> mem_get_real_usage st' = Some (Inr 152))"
proof -
  from nested_tracked have t: "tracked nested_state [0x1000]" and h: "gi_hookDisabled nested_state"
    by simp_all
  have m: "mem nested_state = mem ready_state" by (simp add: nested_state_def)
  have f: "fresh (mem nested_state) [0x1000] 0x2000 (8 * 1)" unfolding m by (rule fresh_one_block)
  have u: "mem_get_usage nested_state = Some (Inr 0)"
    using usage_tracked [OF t] ready_tracked by (simp add: usage_sum_def m)
  have ru: "mem_get_real_usage nested_state = Some (Inr 72)"
    using real_usage_tracked [OF t] ready_tracked
    by (simp add: real_usage_sum_def sizeof_memoryHeader_def sizeof_memoryCap_def m)
  from reentrant_allocation [OF t h f u ru, of MALLOC] t h f u ru nested_tracked
  show ?thesis by (auto simp add: mem_get_alloc_count_def)
qed

section \<open>Corruption detection\<close>





section \<open>Round trip\<close>

text \<open>
  X1. The round trip for every size whose record fits the address space
  (\<open>S + 80 \<le> 2 ^ 64\<close>, part of \<open>fresh\<close>): on a registry of intact records, \<open>malloc (S)\<close>
  answered with a fresh block followed by \<open>free\<close> of the returned pointer runs without an
  abort, restores the live count and leaves the registry as it was.
\<close>

theorem malloc_free_round_trip:
  assumes t: "tracked st xs" and f: "fresh (mem st) xs r sz"
  shows "\<exists>p st1 st2. malloc st sz r = Inr (p, st1) \<and> free st1 p = Inr st2
     \<and> gi_allocCount st2 = gi_allocCount st \<and> tracked st2 xs"
proof -
  from t have gm: "gp_orgMalloc st" by (simp add: tracked_def)
  from f have f1: "fresh (mem st) xs r (sz * 1)" by simp
  from alloc_tracked [OF t f1, of MALLOC] obtain st1 where
    m: "malloc st sz r = Inr (r + 56, st1)" and t1: "tracked st1 (r # xs)"
    and h1: "gi_hookDisabled st1 = gi_hookDisabled st"
    and c1: "gi_allocCount st1 = (if gi_hookDisabled st then gi_allocCount st else gi_allocCount st + 1)"
    by (auto simp add: malloc_alloc [OF gm])
  from free_tracked [OF t1, of r] obtain st2 where
    fr: "free st1 (r + 56) = Inr st2" "tracked st2 xs"
      "gi_allocCount st2 = (if gi_hookDisabled st1 then gi_allocCount st1 else gi_allocCount st1 - 1)"
    by auto
  from m fr h1 c1 show ?thesis by auto
qed

theorem malloc_free_round_trip_witness:
  "tracked ready_state [0x1000] \<and> fresh (mem ready_state) [0x1000] 0x2000 8
   \<and> (\<exists>p st1 st2. malloc ready_state 8 0x2000 = Inr (p, st1) \<and> free st1 p = Inr st2
        \<and> gi_allocCount st2 = gi_allocCount ready_state \<and> tracked st2 [0x1000])"
proof -
  from ready_tracked have t: "tracked ready_state [0x1000]" by simp
  from fresh_one_block have f: "fresh (mem ready_state) [0x1000] 0x2000 8" by simp
  from malloc_free_round_trip [OF t f] t f show ?thesis by simp
qed

text \<open>
  C3 at the largest size. \<open>size * nmemb\<close> plus the 72 bytes of header and cap wraps around,
  so \<open>internalRealloc\<close> asks the underlying allocator for 72 bytes and then fills the
  "padding" that starts at \<open>ucPtr + SIZE_MAX\<close>, which is the last byte of its own second head
  guard word. \<open>free\<close> on the returned pointer aborts with a corrupt top guard band.
\<close>

theorem round_trip_max_size_aborts:
  "malloc ready_state (- 1) 0x2000 = Inr (0x2038, max_size_state)
   \<and> free max_size_state 0x2038 = Inl (TopGuardCorrupt 1)"
proof -
  from ready_tracked have t: "tracked ready_state [0x1000]" by simp
  then have g: "gp_orgMalloc ready_state" "gp_orgRealloc ready_state"
    and ch: "chain (mem ready_state) gp_listHead [0x1000]"
    by (simp_all add: tracked_def registry_def)
  from ch have f: "load64 (mem ready_state) 0x4040C0 = 0x1000" by (simp add: gp_listHead_def)
  have r0: "(0x2000 :: addr) \<noteq> 0" by simp
  note ms = malloc_success [OF g r0, of "- 1"]
  have m: "malloc ready_state (- 1) 0x2000 = Inr (0x2038, max_size_state)"
    unfolding max_size_state_def ms by simp
  have me: "mem max_size_state =
      build_record (mem ready_state) 0x2000 szEmpty (- 1) (thread_self ready_state)"
    using ready_tracked unfolding max_size_state_def ms by simp
  have "verifyIntegrity (build_record (mem ready_state) 0x2000 szEmpty (- 1) (thread_self ready_state))
      (0x2000 + 56) = Inl (TopGuardCorrupt 1)"
    by (rule max_size_corrupts_guard) (simp_all add: sep_def gp_listHead_def f)
  then show ?thesis using m me by (simp add: free_def internalFree_def)
qed

section \<open>Resize\<close>

text \<open>
  C5, as the code has it. In a state \<open>st\<close> where the underlying allocator is resolved,
  \<open>realloc (NULL, S)\<close> is \<open>malloc (S)\<close>: the same result and the same new state, whatever
  the underlying allocator answers and whatever the registry holds. In a state \<open>st0\<close> where
  it is not resolved yet, \<open>realloc\<close> aborts on its assertion while \<open>malloc\<close> is served by
  \<open>internalStaticAlloc\<close>, so the two differ. And \<open>realloc (p, 0)\<close> on a tracked, intact
  block, answered with a fresh block at \<open>r\<close>, returns the non-null pointer \<open>r + 56\<close> to an
  intact record of payload size 0 at the head of the registry; the old record has left the
  registry, the live count is unchanged, and the underlying allocator holds 72 bytes at
  \<open>r\<close>.
\<close>

theorem resize_semantics:
  "(gp_orgMalloc st \<longrightarrow> gp_orgRealloc st \<longrightarrow> realloc st 0 sz q = malloc st sz q)
   \<and> (\<not> gp_orgMalloc st0 \<longrightarrow> \<not> gp_orgRealloc st0 \<longrightarrow>
         realloc st0 0 sz q = Inl ReallocBeforeInit
         \<and> malloc st0 sz q = internalStaticAlloc st0 sz
         \<and> realloc st0 0 sz q \<noteq> malloc st0 sz q)
   \<and> (tracked st xs \<longrightarrow> h \<in> set xs \<longrightarrow> fresh (mem st) (remove1 h xs) r 0 \<longrightarrow>
         (\<exists>st'. realloc st (h + 56) 0 r = Inr (r + 56, st') \<and> r + 56 \<noteq> 0
            \<and> verifyIntegrity (mem st') (r + 56) = Inr r \<and> size_of (mem st') r = 0
            \<and> tracked st' (r # remove1 h xs)
            \<and> mem_get_alloc_count st' = mem_get_alloc_count st
            \<and> heap_blocks st' r = Some 72))"
proof -
  have p1: "gp_orgMalloc st \<longrightarrow> gp_orgRealloc st \<longrightarrow> realloc st 0 sz q = malloc st sz q"
    by (simp add: realloc_def malloc_def internalRealloc_def count_allocation_def Let_def)
  have p0: "\<not> gp_orgMalloc st0 \<longrightarrow> \<not> gp_orgRealloc st0 \<longrightarrow>
         realloc st0 0 sz q = Inl ReallocBeforeInit
         \<and> malloc st0 sz q = internalStaticAlloc st0 sz
         \<and> realloc st0 0 sz q \<noteq> malloc st0 sz q"
    by (simp add: realloc_def malloc_def internalStaticAlloc_def Let_def)
  have p2: "\<exists>st'. realloc st (h + 56) 0 r = Inr (r + 56, st') \<and> r + 56 \<noteq> 0
            \<and> verifyIntegrity (mem st') (r + 56) = Inr r \<and> size_of (mem st') r = 0
            \<and> tracked st' (r # remove1 h xs)
            \<and> mem_get_alloc_count st' = mem_get_alloc_count st
            \<and> heap_blocks st' r = Some 72"
    if t: "tracked st xs" and hin: "h \<in> set xs" and f: "fresh (mem st) (remove1 h xs) r 0"
  proof -
    have a: "adjust_size 0 1 = 72"
      by (simp add: adjust_size_def sizeof_memoryHeader_def sizeof_memoryCap_def)
    have n: "unat (adjust_size 0 1) \<le> foot r 0" by (simp add: a foot_def)
    from f have nw: "unat r + foot r 0 \<le> 2 ^ 64" by (simp add: fresh_def)
    have nz: "r + 56 \<noteq> 0" using nw by (rule payload_nonzero) (simp add: foot_def)
    from realloc_success [OF t hin f n] obtain st' where
      r: "realloc st (h + 56) 0 r = Inr (r + 56, st')" "tracked st' (r # remove1 h xs)"
        "gi_allocCount st' = gi_allocCount st" "load64 (mem st') (r + 8) = 0"
        "heap_blocks st' = ((heap_blocks st)(h := None))(r \<mapsto> adjust_size 0 1)"
      by blast
    from r(2) have "verifyIntegrity (mem st') (r + 56) = Inr r" by (simp add: tracked_def)
    with r nz a show ?thesis by (simp add: size_of_def mem_get_alloc_count_def)
  qed
  from p1 p0 p2 show ?thesis by blast
qed

lemma one_block_blk:
  "blk (mem one_block_state) 0x2000 = 80" "blk (mem one_block_state) 0x1000 = 72"
  using one_block_facts by (simp_all add: blk_def foot_def pad_len_def)

theorem resize_semantics_witness:
  "gp_orgMalloc one_block_state \<and> gp_orgRealloc one_block_state
   \<and> \<not> gp_orgMalloc fresh_state \<and> \<not> gp_orgRealloc fresh_state
   \<and> tracked one_block_state [0x2000, 0x1000]
   \<and> fresh (mem one_block_state) (remove1 0x2000 [0x2000, 0x1000]) 0x2000 0
   \<and> realloc one_block_state 0 24 0x3000 = malloc one_block_state 24 0x3000
   \<and> realloc fresh_state 0 24 0x3000 = Inl ReallocBeforeInit
   \<and> malloc fresh_state 24 0x3000 = internalStaticAlloc fresh_state 24
   \<and> realloc fresh_state 0 24 0x3000 \<noteq> malloc fresh_state 24 0x3000
   \<and> (\<exists>st'. realloc one_block_state 0x2038 0 0x2000 = Inr (0x2038, st')
        \<and> verifyIntegrity (mem st') 0x2038 = Inr 0x2000 \<and> size_of (mem st') 0x2000 = 0
        \<and> tracked st' [0x2000, 0x1000]
        \<and> mem_get_alloc_count st' = 2 \<and> heap_blocks st' 0x2000 = Some 72)"
proof -
  from one_block_facts have t: "tracked one_block_state [0x2000, 0x1000]" by simp
  then have g: "gp_orgMalloc one_block_state" "gp_orgRealloc one_block_state"
    by (simp_all add: tracked_def)
  have g0: "\<not> gp_orgMalloc fresh_state" "\<not> gp_orgRealloc fresh_state"
    by (simp_all add: fresh_state_def)
  have f: "fresh (mem one_block_state) (remove1 0x2000 [0x2000, 0x1000]) 0x2000 0"
    by (simp add: fresh_def foot_def pad_len_def sep_def gp_listHead_def one_block_blk)
  note th = resize_semantics
    [of one_block_state 24 "0x3000" fresh_state "[0x2000, 0x1000]" "0x2000" "0x2000"]
  from th g have a1: "realloc one_block_state 0 24 0x3000 = malloc one_block_state 24 0x3000"
    by blast
  from th g0 have a2: "realloc fresh_state 0 24 0x3000 = Inl ReallocBeforeInit"
    "malloc fresh_state 24 0x3000 = internalStaticAlloc fresh_state 24"
    "realloc fresh_state 0 24 0x3000 \<noteq> malloc fresh_state 24 0x3000"
    by blast+
  from th t f have "\<exists>st'. realloc one_block_state (0x2000 + 56) 0 0x2000 = Inr (0x2000 + 56, st')
      \<and> 0x2000 + 56 \<noteq> (0 :: addr)
      \<and> verifyIntegrity (mem st') (0x2000 + 56) = Inr 0x2000 \<and> size_of (mem st') 0x2000 = 0
      \<and> tracked st' (0x2000 # remove1 0x2000 [0x2000, 0x1000])
      \<and> mem_get_alloc_count st' = mem_get_alloc_count one_block_state
      \<and> heap_blocks st' 0x2000 = Some 72"
    by simp
  then have a3: "\<exists>st'. realloc one_block_state 0x2038 0 0x2000 = Inr (0x2038, st')
        \<and> verifyIntegrity (mem st') 0x2038 = Inr 0x2000 \<and> size_of (mem st') 0x2000 = 0
        \<and> tracked st' [0x2000, 0x1000]
        \<and> mem_get_alloc_count st' = 2 \<and> heap_blocks st' 0x2000 = Some 72"
    using one_block_facts by (simp add: mem_get_alloc_count_def)
  from a1 a2 a3 g g0 t f show ?thesis by blast
qed

text \<open>
  C5 as stated fails before initialisation: in the initial process \<open>realloc (NULL, 8)\<close>
  aborts on the assertion that \<open>gp_orgRealloc\<close> is set, while \<open>malloc (8)\<close> returns the start
  of the bootstrap area and advances its index by one word.
\<close>

theorem resize_before_init_counterexample:
  "realloc fresh_state 0 8 0x2000 = Inl ReallocBeforeInit
   \<and> malloc fresh_state 8 0x2000 = Inr (ullStatic, fresh_state\<lparr>sIndex := 1\<rparr>)"
  by (simp add: realloc_def malloc_def internalStaticAlloc_def Let_def fresh_state_def
      word_le_nat_alt)

section \<open>Suppression\<close>



section \<open>A refused resize\<close>

text \<open>
  C8, as the code has it. When the underlying allocator refuses the resize of a tracked
  block, \<open>realloc\<close> returns the null pointer after it has taken the record out of the
  registry: the registry walks (Usage, RealUsage, CheckIntegrity, the report lines) no
  longer see the block, its \<open>le_prev\<close> link is null, the block is still intact and the
  underlying allocator still holds it. The live count is not touched, so AllocationCount
  still counts the block.
\<close>

theorem realloc_failure_detaches:
  assumes "tracked st xs" and "h \<in> set xs"
  shows "\<exists>st'. realloc st (h + 56) sz 0 = Inr (0, st')
     \<and> tracked st' (remove1 h xs) \<and> h \<notin> set (remove1 h xs)
     \<and> le_prev_of (mem st') h = 0
     \<and> verifyIntegrity (mem st') (h + 56) = Inr h
     \<and> heap_blocks st' = heap_blocks st
     \<and> mem_get_alloc_count st' = mem_get_alloc_count st"
proof -
  from assms(1) have reg: "registry (mem st) xs" by (simp add: tracked_def)
  then have "seps (mem st) xs" by (simp add: registry_def)
  then have "distinct xs" by (rule seps_distinct)
  then have ni: "h \<notin> set (remove1 h xs)" by simp
  note rf = realloc_failure(1) [OF assms, where sz = sz] realloc_failure(2-5) [OF assms]
  note rd = registry_detach [OF reg assms(2)]
  from rf rd(2) ni show ?thesis
    by (auto simp add: verify_intact le_prev_of_def mem_get_alloc_count_def)
qed

lemma failed_realloc_facts:
  "realloc one_block_state 0x2038 100 0 = Inr (0, failed_realloc_state)
   \<and> tracked failed_realloc_state [0x1000]
   \<and> gi_allocCount failed_realloc_state = 2"
proof -
  from one_block_facts have t: "tracked one_block_state [0x2000, 0x1000]" by simp
  have h: "0x2000 \<in> set [0x2000, 0x1000 :: addr]" by simp
  note rf = realloc_failure(1) [OF t h, where sz = 100] realloc_failure(2-5) [OF t h]
  from rf(1) have e: "realloc one_block_state 0x2038 100 0 =
      Inr (0, one_block_state\<lparr>mem := detach (mem one_block_state) 0x2000\<rparr>)" by simp
  then have s: "failed_realloc_state = one_block_state\<lparr>mem := detach (mem one_block_state) 0x2000\<rparr>"
    by (simp add: failed_realloc_state_def)
  from rf(2) e one_block_facts show ?thesis unfolding s by simp
qed

theorem realloc_failure_detaches_witness:
  "tracked one_block_state [0x2000, 0x1000]
   \<and> (\<exists>st'. realloc one_block_state 0x2038 100 0 = Inr (0, st')
        \<and> tracked st' [0x1000] \<and> le_prev_of (mem st') 0x2000 = 0
        \<and> verifyIntegrity (mem st') 0x2038 = Inr 0x2000
        \<and> heap_blocks st' = heap_blocks one_block_state
        \<and> mem_get_alloc_count st' = 2)"
proof -
  from one_block_facts have t: "tracked one_block_state [0x2000, 0x1000]" by simp
  have h: "0x2000 \<in> set [0x2000, 0x1000 :: addr]" by simp
  from realloc_failure_detaches [OF t h, of 100] t one_block_facts show ?thesis
    by (auto simp add: mem_get_alloc_count_def)
qed

text \<open>
  C8 as stated fails in one point: after the refused resize the registry holds only the
  constructor's record, yet AllocationCount is 2, as before the call.
\<close>

theorem realloc_failure_count_counterexample:
  "realloc one_block_state 0x2038 100 0 = Inr (0, failed_realloc_state)
   \<and> registry (mem failed_realloc_state) [0x1000]
   \<and> mem_get_alloc_count one_block_state = 2
   \<and> mem_get_alloc_count failed_realloc_state = 2"
  using failed_realloc_facts one_block_facts
  by (simp add: tracked_def mem_get_alloc_count_def)

section \<open>Release after suppression\<close>

text \<open>
  C9. After \<open>mem_ignore_current_allocations\<close> the live count is 0; releasing a block that
  was tracked before, by a caller (re-entrancy flag clear), succeeds and decrements the
  count, which is then \<open>-1\<close>.
\<close>

theorem release_after_ignore:
  assumes "tracked st xs" and "h \<in> set xs" and "\<not> gi_hookDisabled st"
  shows "\<exists>st1 st2. mem_ignore_current_allocations st = Some st1
     \<and> mem_get_alloc_count st1 = 0
     \<and> free st1 (h + 56) = Inr st2
     \<and> mem_get_alloc_count st2 = - 1"
proof -
  from assms(1) have sp: "seps (mem st) xs" by (simp add: tracked_def registry_def)
  from seps_mem [OF sp assms(2)] have nw: "unat h + blk (mem st) h \<le> 2 ^ 64" by simp
  have nz: "h + 56 \<noteq> 0" using nw blk_ge by (rule payload_nonzero)
  from ignore_tracked [OF assms(1)] assms(2) obtain st1 where
    r: "mem_ignore_current_allocations st = Some st1" "tracked st1 []" "gi_allocCount st1 = 0"
      "gi_hookDisabled st1 = gi_hookDisabled st"
      "load64 (mem st1) (h + 32) = 0" "intact (mem st1) h"
    by blast
  from r(2) have gf: "gp_orgFree st1" by (simp add: tracked_def)
  note fd = free_detached [OF r(6) r(5) gf nz]
  show ?thesis using r(1) r(3) r(4) assms(3) fd
    by (simp add: mem_get_alloc_count_def)
qed

theorem release_after_ignore_witness:
  "tracked one_block_state [0x2000, 0x1000] \<and> \<not> gi_hookDisabled one_block_state
   \<and> (\<exists>st1 st2. mem_ignore_current_allocations one_block_state = Some st1
        \<and> mem_get_alloc_count st1 = 0
        \<and> free st1 0x2038 = Inr st2
        \<and> mem_get_alloc_count st2 = - 1)"
proof -
  from one_block_facts have t: "tracked one_block_state [0x2000, 0x1000]"
    and nh: "\<not> gi_hookDisabled one_block_state" by simp_all
  have h: "0x2000 \<in> set [0x2000, 0x1000 :: addr]" by simp
  from release_after_ignore [OF t h nh] t nh show ?thesis by simp
qed

end
